theory Spec2Isabelle
  imports Complex_Main
begin

section \<open>Python strings\<close>

text \<open>
  A Python \<open>str\<close> is a sequence of Unicode code points, so a character is the natural
  number of its code point and \<open>len\<close> is \<open>length\<close>. The source file holds characters
  beyond Latin-1 in its messages (for instance U+0152), which an 8-bit character type
  could not carry. An ASCII literal of the source is written \<open>ascii ''...''\<close>.
\<close>

type_synonym uchar = nat
type_synonym ustr = "uchar list"

definition ascii :: "string \<Rightarrow> ustr" where
  "ascii s = map of_char s"

definition LBRACE :: uchar where "LBRACE = 123"
definition RBRACE :: uchar where "RBRACE = 125"
definition BACKSLASH :: uchar where "BACKSLASH = 92"
definition DQUOTE :: uchar where "DQUOTE = 34"
definition NEWLINE :: uchar where "NEWLINE = 10"
definition CR :: uchar where "CR = 13"

text \<open>\<open>str(n)\<close> and \<open>f"{n}"\<close> for a non-negative integer: its decimal digits.\<close>

fun str_of_nat :: "nat \<Rightarrow> ustr" where
  "str_of_nat n = (if n < 10 then [48 + n] else str_of_nat (n div 10) @ [48 + n mod 10])"

declare str_of_nat.simps [simp del]

text \<open>\<open>s.replace(old, new)\<close> where \<open>old\<close> is a single character, as in every call of the source.\<close>

definition replace :: "uchar \<Rightarrow> ustr \<Rightarrow> ustr \<Rightarrow> ustr" where
  "replace old new s = concat (map (\<lambda>c. if c = old then new else [c]) s)"

text \<open>\<open>sep.join(xs)\<close>.\<close>

fun join :: "ustr \<Rightarrow> ustr list \<Rightarrow> ustr" where
  "join sep [] = []"
| "join sep [x] = x"
| "join sep (x # y # ys) = x @ sep @ join sep (y # ys)"

text \<open>
  \<open>s.strip()\<close> removes the leading and trailing characters for which \<open>str.isspace\<close> holds;
  these are the code points below.
\<close>

definition isspace :: "uchar \<Rightarrow> bool" where
  "isspace c \<longleftrightarrow>
     (9 \<le> c \<and> c \<le> 13) \<or> (28 \<le> c \<and> c \<le> 32) \<or> c = 133 \<or> c = 160 \<or> c = 5760 \<or>
     (8192 \<le> c \<and> c \<le> 8202) \<or> c = 8232 \<or> c = 8233 \<or> c = 8239 \<or> c = 8287 \<or> c = 12288"

definition strip :: "ustr \<Rightarrow> ustr" where
  "strip s = rev (dropWhile isspace (rev (dropWhile isspace s)))"

text \<open>\<open>d.get(k, default)\<close> on a dict.\<close>

definition dict_get :: "('k \<rightharpoonup> 'v) \<Rightarrow> 'k \<Rightarrow> 'v \<Rightarrow> 'v" where
  "dict_get d k dflt = (case d k of None \<Rightarrow> dflt | Some v \<Rightarrow> v)"

section \<open>Exceptions\<close>

text \<open>
  \<open>ValueError m\<close> is a \<open>ValueError\<close> that is not a \<open>JSONDecodeError\<close>, with \<open>str(e) = m\<close>: the
  source's own \<open>raise ValueError(m)\<close>, or one that a library raises. \<open>ValidationError cls errs\<close>
  is what the schema library raises for the model class \<open>cls\<close>, with the location and
  kind of every field that failed. \<open>Raised m\<close> is any other exception of class \<open>Exception\<close>
  raised inside the parser, the language model client or the search client, \<open>m\<close> being its
  \<open>str(e)\<close>.
\<close>

datatype loc_item = Key ustr | Index nat

datatype verror_kind = Missing | StringType | ListType | ModelType

type_synonym verror = "loc_item list \<times> verror_kind"

datatype exn = ValueError ustr | ValidationError ustr "verror list" | Raised ustr

text \<open>
  The two ways in which \<open>json.loads\<close> fails: with a \<open>JSONDecodeError e\<close>, carried as
  \<open>str(e)\<close>, when the text is not valid JSON, and with any other exception, for instance a
  \<open>RecursionError\<close> on a text nested too deeply or a plain \<open>ValueError\<close> on an integer of too
  many digits.
\<close>

datatype loads_error = JSONDecodeError ustr | OtherError exn

section \<open>The JSON extractor\<close>

text \<open>
  \<open>re.search(r"\{.*\}", text, re.DOTALL)\<close>, as the backtracking matcher runs it.
  \<open>star_close s\<close> matches \<open>.*\}\<close> at the start of \<open>s\<close>: the star first takes the next
  character and lets the rest of the pattern match what follows; only when that fails it
  stops and tries \<open>\}\<close> here. With DOTALL the dot matches every character. \<open>re_search\<close> tries
  the start positions from left to right and returns the matched text (\<open>match.group()\<close>).
\<close>

fun star_close :: "ustr \<Rightarrow> ustr option" where
  "star_close [] = None"
| "star_close (c # cs) =
     (case star_close cs of
        Some m \<Rightarrow> Some (c # m)
      | None \<Rightarrow> if c = RBRACE then Some [c] else None)"

fun match_here :: "ustr \<Rightarrow> ustr option" where
  "match_here [] = None"
| "match_here (c # cs) =
     (if c = LBRACE then map_option (\<lambda>m. c # m) (star_close cs) else None)"

fun re_search :: "ustr \<Rightarrow> ustr option" where
  "re_search [] = None"
| "re_search (c # cs) =
     (case match_here (c # cs) of
        Some m \<Rightarrow> Some m
      | None \<Rightarrow> re_search cs)"

definition NO_JSON_MSG :: ustr where
  "NO_JSON_MSG = ascii ''No JSON object found in text.''"

definition parse_failure_msg :: "ustr \<Rightarrow> ustr \<Rightarrow> ustr" where
  "parse_failure_msg reason text =
     ascii ''Failed to parse JSON: '' @ reason @ ascii ''\<newline>Preview: '' @ take 500 text"

text \<open>
  \<open>json.loads\<close> is the standard library's parser and is a parameter \<open>loads\<close>: \<open>Inr v\<close> is
  the parsed value, \<open>Inl\<close> one of its two failures. The \<open>except\<close> clause names
  \<open>json.JSONDecodeError\<close> only: it rewrites that failure, and lets through both the
  \<open>ValueError\<close> raised for a missing match and every other exception of the parser.
\<close>

definition extract_json :: "(ustr \<Rightarrow> loads_error + 'v) \<Rightarrow> ustr \<Rightarrow> exn + 'v" where
  "extract_json loads text =
     (case re_search text of
        None \<Rightarrow> Inl (ValueError NO_JSON_MSG)
      | Some json_text \<Rightarrow>
          (case loads json_text of
             Inr v \<Rightarrow> Inr v
           | Inl (JSONDecodeError reason) \<Rightarrow> Inl (ValueError (parse_failure_msg reason text))
           | Inl (OtherError e) \<Rightarrow> Inl e))"

text \<open>
  The span the specification describes: from the first \<open>{\<close> of the text to its last \<open>}\<close>.
\<close>

definition first_index :: "uchar \<Rightarrow> ustr \<Rightarrow> nat" where
  "first_index c s = length (takeWhile (\<lambda>x. x \<noteq> c) s)"

definition last_index :: "uchar \<Rightarrow> ustr \<Rightarrow> nat" where
  "last_index c s = length s - Suc (first_index c (rev s))"

definition spec_greedy_span :: "ustr \<Rightarrow> ustr" where
  "spec_greedy_span text =
     take (Suc (last_index RBRACE text) - first_index LBRACE text)
       (drop (first_index LBRACE text) text)"

definition brace_pair :: "ustr \<Rightarrow> bool" where
  "brace_pair text \<longleftrightarrow>
     (\<exists>i j. i < j \<and> j < length text \<and> text ! i = LBRACE \<and> text ! j = RBRACE)"

text \<open>
  A decomposition of a text around a span that starts with \<open>{\<close>, ends with \<open>}\<close>, has no
  \<open>{\<close> before it and no \<open>}\<close> after it.
\<close>

definition span_split :: "ustr \<Rightarrow> ustr \<Rightarrow> ustr \<Rightarrow> ustr \<Rightarrow> bool" where
  "span_split text pre m post \<longleftrightarrow>
     text = pre @ m @ post \<and> LBRACE \<notin> set pre \<and> RBRACE \<notin> set post \<and>
     (\<exists>mid. m = LBRACE # mid @ [RBRACE])"

text \<open>Stand-ins for the parser, used to run the extractor on concrete texts.\<close>

definition toy_loads :: "ustr \<Rightarrow> loads_error + nat" where
  "toy_loads s =
     (if s = ascii ''{\"n\": 7}'' then Inr 7 else Inl (JSONDecodeError (ascii ''Expecting value'')))"

definition failing_loads :: "ustr \<Rightarrow> loads_error + nat" where
  "failing_loads s = Inl (JSONDecodeError (ascii ''Expecting property name''))"

text \<open>
  A text that is one object whose value is a list nested 100000 deep, and what the parser
  does with it: it gives up with a \<open>RecursionError\<close>.
\<close>

definition deep_text :: ustr where
  "deep_text =
     LBRACE # (ascii ''\"a\": '' @ replicate 100000 91 @ replicate 100000 93) @ [RBRACE]"

definition RECURSION_MSG :: ustr where
  "RECURSION_MSG =
     ascii ''maximum recursion depth exceeded while decoding a JSON array from a unicode string''"

definition deep_loads :: "ustr \<Rightarrow> loads_error + nat" where
  "deep_loads s =
     (if s = deep_text then Inl (OtherError (Raised RECURSION_MSG))
      else Inl (JSONDecodeError (ascii ''Expecting value'')))"

section \<open>Configuration\<close>

definition SERPAPI_KEY :: ustr where
  "SERPAPI_KEY = ascii ''ENTER YOUR API KEY HERE''"

definition NUM_SEARCHES :: nat where
  "NUM_SEARCHES = 3"

section \<open>Parsed JSON and the schema models\<close>

text \<open>
  What \<open>json.loads\<close> returns. A dict is an association list read with \<open>map_of\<close>. A float is
  carried as the rational it denotes; no function of the source computes with it.
\<close>

datatype json =
    JNull
  | JBool bool
  | JInt int
  | JFloat rat
  | JStr ustr
  | JList "json list"
  | JDict "(ustr \<times> json) list"

record WebSearchItem =
  reason :: ustr
  query :: ustr

record WebSearchPlan =
  searches :: "WebSearchItem list"

record ReportData =
  short_summary :: ustr
  markdown_report :: ustr
  follow_up_questions :: "ustr list"

text \<open>
  \<open>WebSearchPlan(**data)\<close> and \<open>ReportData(**data)\<close> run the validation that the schema
  library derives from the class declarations. The library is not part of the repository;
  what it checks is fixed by the declarations: a field declared with \<open>Field(description=...)\<close>
  has no default, so it is required; a \<open>str\<close> field takes a string and nothing else that
  JSON can hold; a \<open>List[T]\<close> field takes a list whose items are validated as \<open>T\<close>, each at
  its index; a model class takes a dict; keys that are not declared are ignored. The
  declarations carry no constraint on the length of a list or of a string. Every failure
  is collected, in the order of the fields.
\<close>

fun validate_str :: "loc_item list \<Rightarrow> json \<Rightarrow> verror list + ustr" where
  "validate_str loc (JStr s) = Inr s"
| "validate_str loc _ = Inl [(loc, StringType)]"

definition required ::
  "(ustr \<times> json) list \<Rightarrow> loc_item list \<Rightarrow> ustr \<Rightarrow> (loc_item list \<Rightarrow> json \<Rightarrow> verror list + 'a)
     \<Rightarrow> verror list + 'a" where
  "required d loc k val =
     (case map_of d k of
        None \<Rightarrow> Inl [(loc @ [Key k], Missing)]
      | Some v \<Rightarrow> val (loc @ [Key k]) v)"

definition errors_of :: "verror list + 'a \<Rightarrow> verror list" where
  "errors_of r = (case r of Inl es \<Rightarrow> es | Inr _ \<Rightarrow> [])"

fun collect :: "(verror list + 'a) list \<Rightarrow> verror list + 'a list" where
  "collect [] = Inr []"
| "collect (r # rs) =
     (case (r, collect rs) of
        (Inr x, Inr xs) \<Rightarrow> Inr (x # xs)
      | (a, b) \<Rightarrow> Inl (errors_of a @ errors_of b))"

fun validate_list ::
  "(loc_item list \<Rightarrow> json \<Rightarrow> verror list + 'a) \<Rightarrow> loc_item list \<Rightarrow> json \<Rightarrow> verror list + 'a list" where
  "validate_list val loc (JList vs) =
     collect (map (\<lambda>(i, v). val (loc @ [Index i]) v) (enumerate 0 vs))"
| "validate_list val loc _ = Inl [(loc, ListType)]"

definition validate_WebSearchItem :: "loc_item list \<Rightarrow> json \<Rightarrow> verror list + WebSearchItem" where
  "validate_WebSearchItem loc v =
     (case v of
        JDict d \<Rightarrow>
          (case (required d loc (ascii ''reason'') validate_str,
                 required d loc (ascii ''query'') validate_str) of
             (Inr r, Inr q) \<Rightarrow> Inr \<lparr>reason = r, query = q\<rparr>
           | (a, b) \<Rightarrow> Inl (errors_of a @ errors_of b))
      | _ \<Rightarrow> Inl [(loc, ModelType)])"

definition WebSearchPlan_init :: "(ustr \<times> json) list \<Rightarrow> exn + WebSearchPlan" where
  "WebSearchPlan_init data =
     (case required data [] (ascii ''searches'') (validate_list validate_WebSearchItem) of
        Inr items \<Rightarrow> Inr \<lparr>searches = items\<rparr>
      | Inl errs \<Rightarrow> Inl (ValidationError (ascii ''WebSearchPlan'') errs))"

definition ReportData_init :: "(ustr \<times> json) list \<Rightarrow> exn + ReportData" where
  "ReportData_init data =
     (case (required data [] (ascii ''short_summary'') validate_str,
            required data [] (ascii ''markdown_report'') validate_str,
            required data [] (ascii ''follow_up_questions'') (validate_list validate_str)) of
        (Inr s, Inr m, Inr f) \<Rightarrow>
          Inr \<lparr>short_summary = s, markdown_report = m, follow_up_questions = f\<rparr>
      | (a, b, c) \<Rightarrow>
          Inl (ValidationError (ascii ''ReportData'') (errors_of a @ errors_of b @ errors_of c)))"

text \<open>
  The property of a plan that the specification calls its invariant.
\<close>

definition spec_plan_invariant :: "WebSearchPlan \<Rightarrow> bool" where
  "spec_plan_invariant plan \<longleftrightarrow>
     length (searches plan) = NUM_SEARCHES \<and>
     (\<forall>item \<in> set (searches plan). reason item \<noteq> [] \<and> query item \<noteq> [])"


section \<open>The world outside the program\<close>

text \<open>
  The language model, the search provider and the progress sink are outside the program.
  They are parameters, and what they do to the rest of the world is a state \<open>'w\<close> that
  every call takes and returns: a call may answer differently each time, and may fail.
  \<open>generate_content\<close> stands for building the client and calling
  \<open>client.models.generate_content\<close>; it returns \<open>response.text\<close>, taken to be a string.
  \<open>get_dict\<close> stands for \<open>GoogleSearch(params).get_dict()\<close>. The values that the program
  reads from a result of the provider (title, link, snippet) are strings, as in the data
  model of the specification; any of the keys may be absent.
  \<open>json_loads\<close> is \<open>json.loads\<close> on a text that begins with \<open>{\<close>, where a successful parse
  is a dict. \<open>validation_str\<close> is the text that the schema library gives its error.
  A progress fraction, a float in the source, is the rational number that its expression
  denotes.
\<close>

record llm_request =
  model :: ustr
  contents :: ustr
  temperature :: rat
  response_mime_type :: ustr

record search_params =
  param_q :: ustr
  param_engine :: ustr
  param_api_key :: ustr
  param_num :: nat

type_synonym result_dict = "ustr \<rightharpoonup> ustr"

record serp_data =
  organic_results :: "result_dict list option"

record search_output =
  out_query :: ustr
  out_reason :: ustr
  results :: "result_dict list"
  summary :: ustr

record 'w collaborators =
  generate_content :: "llm_request \<Rightarrow> 'w \<Rightarrow> (exn + ustr) \<times> 'w"
  get_dict :: "search_params \<Rightarrow> 'w \<Rightarrow> (exn + serp_data) \<times> 'w"
  progress :: "rat \<Rightarrow> ustr \<Rightarrow> 'w \<Rightarrow> 'w"
  json_loads :: "ustr \<Rightarrow> loads_error + (ustr \<times> json) list"
  validation_str :: "ustr \<Rightarrow> verror list \<Rightarrow> ustr"

text \<open>\<open>str(e)\<close>.\<close>

fun exn_str :: "'w collaborators \<Rightarrow> exn \<Rightarrow> ustr" where
  "exn_str env (ValueError m) = m"
| "exn_str env (ValidationError cls errs) = validation_str env cls errs"
| "exn_str env (Raised m) = m"

section \<open>Tool functions\<close>

definition json_safe :: "ustr \<Rightarrow> ustr" where
  "json_safe text =
     (if text = [] then []
      else replace CR [BACKSLASH, 114]
             (replace NEWLINE [BACKSLASH, 110]
               (replace DQUOTE [BACKSLASH, DQUOTE]
                 (replace BACKSLASH [BACKSLASH, BACKSLASH] text))))"

definition search_request :: "ustr \<Rightarrow> search_params" where
  "search_request q =
     \<lparr>param_q = q, param_engine = ascii ''google'', param_api_key = SERPAPI_KEY, param_num = 5\<rparr>"

definition normalize_result :: "result_dict \<Rightarrow> result_dict" where
  "normalize_result r =
     (let title = dict_get r (ascii ''title'') (ascii ''No title'');
          url = dict_get r (ascii ''link'') [];
          snippet = dict_get r (ascii ''snippet'') []
      in [ascii ''title'' \<mapsto> title, ascii ''url'' \<mapsto> url, ascii ''snippet'' \<mapsto> snippet])"

text \<open>
  \<open>search_web\<close> returns \<open>json.dumps(search_output)\<close> and its only caller reads the string
  back with \<open>json.loads\<close>. On a dict of strings and lists the two cancel, so the model
  returns the dict.
\<close>

definition search_web ::
  "'w collaborators \<Rightarrow> ustr \<Rightarrow> ustr \<Rightarrow> 'w \<Rightarrow> (exn + search_output) \<times> 'w" where
  "search_web env q why w =
     (if SERPAPI_KEY = [] then
        (Inl (ValueError (ascii ''Missing SERPAPI_KEY environment variable'')), w)
      else
        (case get_dict env (search_request q) w of
           (Inl e, w') \<Rightarrow> (Inl e, w')
         | (Inr data, w') \<Rightarrow>
             (let rs = map normalize_result
                         (case organic_results data of None \<Rightarrow> [] | Some found \<Rightarrow> found)
              in (Inr \<lparr>out_query = q, out_reason = why, results = rs,
                        summary = ascii ''Top '' @ str_of_nat (length rs) @
                                  ascii '' search results for '' @ [39] @ q @ [39]\<rparr>, w'))))"

section \<open>System instructions\<close>

definition SEARCH_PLANNER_INSTRUCTION :: ustr where
  "SEARCH_PLANNER_INSTRUCTION =
     ascii ''You are a research planning assistant. '' @ [NEWLINE] @
     ascii ''Given a research query, create a strategic search plan with '' @
     str_of_nat NUM_SEARCHES @ ascii '' different searches. '' @ [NEWLINE] @
     ascii ''Each search should target different aspects to provide comprehensive coverage. '' @ [NEWLINE] @
     ascii ''Think about:'' @ [NEWLINE] @
     ascii ''- Different angles and perspectives on the topic'' @ [NEWLINE] @
     ascii ''- Various subtopics and related areas'' @ [NEWLINE] @
     ascii ''- Recent developments and trends'' @ [NEWLINE] @
     ascii ''- Comparisons with alternatives'' @ [NEWLINE] @
     ascii ''- Technical details and implementation aspects'' @ [NEWLINE] @
     ascii ''- Use cases and applications'' @ [NEWLINE] @
     ascii ''- Expert opinions and reviews'' @ [NEWLINE] @
     ascii ''- Challenges and limitations'' @ [NEWLINE] @
     [NEWLINE] @
     ascii ''Return a JSON object with the exact format: '' @ [NEWLINE] @
     ascii ''{'' @ [34] @ ascii ''searches'' @ [34] @ ascii '': [{'' @ [34] @ ascii ''reason'' @ [34] @
     ascii '': '' @ [34] @ ascii ''...'' @ [34] @ ascii '', '' @ [34] @ ascii ''query'' @ [34] @
     ascii '': '' @ [34] @ ascii ''...'' @ [34] @ ascii ''}, ...]}''"

definition REPORT_WRITER_INSTRUCTION :: ustr where
  "REPORT_WRITER_INSTRUCTION =
     ascii ''You are a senior researcher tasked with writing a cohesive report for a research query. '' @ [NEWLINE] @
     ascii ''You will be provided with the original query and search results from a research assistant.'' @ [NEWLINE] @
     [NEWLINE] @
     ascii ''First, create an outline for the report that describes the structure and flow. '' @ [NEWLINE] @
     ascii ''Then, generate the full report based on that outline.'' @ [NEWLINE] @
     [NEWLINE] @
     ascii ''Requirements:'' @ [NEWLINE] @
     ascii ''- The report must be in markdown format'' @ [NEWLINE] @
     ascii ''- It should be detailed and comprehensive (aim for 1000+ words)'' @ [NEWLINE] @
     ascii ''- Include proper sections with headers'' @ [NEWLINE] @
     ascii ''- Provide a short 2-3 sentence summary'' @ [NEWLINE] @
     ascii ''- Suggest 3-5 follow-up research questions'' @ [NEWLINE] @
     [NEWLINE] @
     ascii ''Return a JSON object with: {'' @ [34] @ ascii ''short_summary'' @ [34] @ ascii '': '' @ [34] @
     ascii ''...'' @ [34] @ ascii '', '' @ [34] @ ascii ''markdown_report'' @ [34] @ ascii '': '' @ [34] @
     ascii ''...'' @ [34] @ ascii '', '' @ [34] @ ascii ''follow_up_questions'' @ [34] @ ascii '': [...]}''"

section \<open>Helper functions\<close>

definition planner_request :: "ustr \<Rightarrow> llm_request" where
  "planner_request q =
     \<lparr>model = ascii ''gemini-2.0-flash-exp'',
      contents = SEARCH_PLANNER_INSTRUCTION @ [NEWLINE, NEWLINE] @ ascii ''Research Query: '' @ q @
                 [NEWLINE, NEWLINE] @ ascii ''Please provide the search plan in JSON format.'',
      temperature = 0.7,
      response_mime_type = ascii ''application/json''\<rparr>"

text \<open>
  \<open>extract_json\<close> raises a \<open>ValueError\<close>, which is not a \<open>JSONDecodeError\<close>: the \<open>except\<close>
  clause around the call in \<open>plan_searches\<close> never runs, and the error goes to the caller.
\<close>

definition plan_searches ::
  "'w collaborators \<Rightarrow> ustr \<Rightarrow> 'w \<Rightarrow> (exn + WebSearchPlan) \<times> 'w" where
  "plan_searches env q w =
     (let w1 = progress env 0.1 ([287, 376, 167, 160] @ ascii '' Planning research strategy...'') w
      in case generate_content env (planner_request q) w1 of
           (Inl e, w2) \<Rightarrow> (Inl e, w2)
         | (Inr response_text, w2) \<Rightarrow>
             (case extract_json (json_loads env) response_text of
                Inl e \<Rightarrow> (Inl e, w2)
              | Inr data \<Rightarrow>
                  (case WebSearchPlan_init data of
                     Inl e \<Rightarrow> (Inl e, w2)
                   | Inr search_plan \<Rightarrow>
                       (Inr search_plan,
                        progress env 0.2
                          ([226, 339, 8220] @ ascii '' Planned '' @
                           str_of_nat (length (searches search_plan)) @ ascii '' searches'') w2))))"

text \<open>
  The loop of \<open>perform_searches\<close>: \<open>n\<close> is \<open>total\<close>, \<open>i\<close> counts from 1, \<open>acc\<close> is \<open>results\<close> so
  far. \<open>asyncio.sleep(0.1)\<close> only lets time pass.
\<close>

fun search_loop ::
  "'w collaborators \<Rightarrow> nat \<Rightarrow> nat \<Rightarrow> WebSearchItem list \<Rightarrow> search_output list \<Rightarrow> 'w
     \<Rightarrow> (exn + search_output list) \<times> 'w" where
  "search_loop env n i [] acc w = (Inr acc, w)"
| "search_loop env n i (item # items) acc w =
     (let w1 = progress env (0.2 + (0.5 * of_nat i / of_nat n))
                 ([287, 376, 8221] @ ascii '' Searching ('' @ str_of_nat i @ ascii ''/'' @
                  str_of_nat n @ ascii ''): '' @ take 50 (query item) @ ascii ''...'') w
      in case search_web env (query item) (reason item) w1 of
           (Inl e, w2) \<Rightarrow> (Inl e, w2)
         | (Inr result, w2) \<Rightarrow> search_loop env n (Suc i) items (acc @ [result]) w2)"

definition perform_searches ::
  "'w collaborators \<Rightarrow> WebSearchPlan \<Rightarrow> 'w \<Rightarrow> (exn + search_output list) \<times> 'w" where
  "perform_searches env search_plan w =
     (case search_loop env (length (searches search_plan)) 1 (searches search_plan) [] w of
        (Inl e, w') \<Rightarrow> (Inl e, w')
      | (Inr acc, w') \<Rightarrow>
          (Inr acc, progress env 0.7 ([226, 339, 8220] @ ascii '' Completed all searches'') w'))"

text \<open>
  The state of the loops of \<open>build_references\<close>: the set \<open>seen\<close>, the text \<open>references_md\<close>
  and \<open>counter\<close>.
\<close>

type_synonym refs_state = "(ustr \<times> ustr) set \<times> ustr \<times> nat"

definition refs_step :: "refs_state \<Rightarrow> result_dict \<Rightarrow> refs_state" where
  "refs_step st res =
     (case st of (seen, references_md, counter) \<Rightarrow>
        (let title = dict_get res (ascii ''title'') (ascii ''No title'');
             url = dict_get res (ascii ''url'') [];
             key = (title, url)
         in if key \<notin> seen \<and> url \<noteq> [] then
              (insert key seen,
               references_md @ str_of_nat counter @ ascii ''. ['' @ title @ ascii '']('' @ url @
                 ascii '')'' @ [NEWLINE],
               counter + 1)
            else st))"

definition build_references :: "search_output list \<Rightarrow> ustr" where
  "build_references search_results =
     (case foldl (\<lambda>st search. foldl refs_step st (results search))
             ({}, ascii ''## References'' @ [NEWLINE, NEWLINE], 1) search_results of
        (seen, references_md, counter) \<Rightarrow> references_md)"

definition results_summary :: "search_output list \<Rightarrow> ustr" where
  "results_summary search_results =
     join [NEWLINE, NEWLINE]
       (map (\<lambda>(i, r).
              ascii ''Search '' @ str_of_nat (i + 1) @ ascii '': '' @ json_safe (out_query r) @
              [NEWLINE] @ ascii ''Reason: '' @ json_safe (out_reason r) @
              [NEWLINE] @ ascii ''References:'' @ [NEWLINE] @
              join [NEWLINE]
                (map (\<lambda>(j, res). str_of_nat (j + 1) @ ascii ''. '' @
                                  json_safe (dict_get res (ascii ''url'') []))
                   (enumerate 0 (results r))))
          (enumerate 0 search_results))"

definition report_request :: "ustr \<Rightarrow> search_output list \<Rightarrow> llm_request" where
  "report_request q search_results =
     \<lparr>model = ascii ''gemini-2.0-flash-exp'',
      contents = REPORT_WRITER_INSTRUCTION @ [NEWLINE, NEWLINE] @
                 ascii ''Original Research Query: '' @ json_safe q @ [NEWLINE, NEWLINE] @
                 ascii ''Search Results:'' @ [NEWLINE] @ results_summary search_results @
                 [NEWLINE, NEWLINE] @
                 ascii ''Please write a comprehensive report in JSON format with short_summary, markdown_report, and follow_up_questions.'',
      temperature = 0.7,
      response_mime_type = ascii ''application/json''\<rparr>"

definition write_report ::
  "'w collaborators \<Rightarrow> ustr \<Rightarrow> search_output list \<Rightarrow> 'w \<Rightarrow> (exn + ReportData) \<times> 'w" where
  "write_report env q search_results w =
     (let w1 = progress env 0.75 ([287, 376, 8220] @ ascii '' Writing comprehensive report...'') w
      in case generate_content env (report_request q search_results) w1 of
           (Inl e, w2) \<Rightarrow> (Inl e, w2)
         | (Inr response_text, w2) \<Rightarrow>
             (case extract_json (json_loads env) response_text of
                Inl e \<Rightarrow> (Inl e, w2)
              | Inr data \<Rightarrow>
                  (case ReportData_init data of
                     Inl e \<Rightarrow> (Inl e, w2)
                   | Inr report \<Rightarrow>
                       (Inr (report\<lparr>markdown_report :=
                                markdown_report report @ [NEWLINE, NEWLINE] @
                                build_references search_results\<rparr>),
                        progress env 1.0 ([226, 339, 8220] @ ascii '' Report completed!'') w2))))"

section \<open>The pipeline\<close>

definition INVALID_QUERY_MSG :: ustr where
  "INVALID_QUERY_MSG =
     [226, 338] @ ascii '' Please enter a valid research query (at least 3 characters)''"

definition ERROR_PREFIX :: ustr where
  "ERROR_PREFIX = [226, 338] @ ascii '' Error: ''"

definition follow_up_text :: "ustr list \<Rightarrow> ustr" where
  "follow_up_text qs =
     join [NEWLINE] (map (\<lambda>(i, q). str_of_nat i @ ascii ''. '' @ q) (enumerate 1 qs))"

text \<open>
  \<open>except Exception\<close> takes every error of the three stages; each stage result below that
  is \<open>Inl e\<close> goes to the one handler.
\<close>

definition run_research_pipeline ::
  "'w collaborators \<Rightarrow> ustr \<Rightarrow> 'w \<Rightarrow> (ustr \<times> ustr \<times> ustr) \<times> 'w" where
  "run_research_pipeline env q w =
     (if q = [] \<or> length (strip q) < 3 then ((INVALID_QUERY_MSG, [], []), w)
      else
        (let w0 = progress env 0 ([287, 376, 353, 8364] @ ascii '' Starting research pipeline...'') w
         in case plan_searches env q w0 of
              (Inl e, w1) \<Rightarrow> ((ERROR_PREFIX @ exn_str env e, [], []), w1)
            | (Inr search_plan, w1) \<Rightarrow>
                (case perform_searches env search_plan w1 of
                   (Inl e, w2) \<Rightarrow> ((ERROR_PREFIX @ exn_str env e, [], []), w2)
                 | (Inr search_results, w2) \<Rightarrow>
                     (case write_report env q search_results w2 of
                        (Inl e, w3) \<Rightarrow> ((ERROR_PREFIX @ exn_str env e, [], []), w3)
                      | (Inr report, w3) \<Rightarrow>
                          ((short_summary report, markdown_report report,
                            follow_up_text (follow_up_questions report)), w3)))))"

section \<open>A recording world\<close>

text \<open>
  To observe which calls a run makes, and in which order, any collaborators can be wrapped
  so that each call also appends an event to a log kept beside the state.
\<close>

datatype event = ProgressEvent rat ustr | GenerateCall llm_request | SearchCall search_params

definition logged :: "'w collaborators \<Rightarrow> (event list \<times> 'w) collaborators" where
  "logged env =
     \<lparr>generate_content = (\<lambda>req (evs, w).
          case generate_content env req w of (r, w') \<Rightarrow> (r, (evs @ [GenerateCall req], w'))),
      get_dict = (\<lambda>params (evs, w).
          case get_dict env params w of (r, w') \<Rightarrow> (r, (evs @ [SearchCall params], w'))),
      progress = (\<lambda>fraction desc (evs, w).
          (evs @ [ProgressEvent fraction desc], progress env fraction desc w)),
      json_loads = json_loads env,
      validation_str = validation_str env\<rparr>"


section \<open>What the specification asks of the report prompt\<close>

text \<open>
  A text is escaped when it reads as a sequence of plain characters, none of them a
  backslash, a double quote, a newline or a carriage return, and of two-character escapes:
  a backslash followed by a backslash, a double quote, \<open>n\<close> or \<open>r\<close>. \<open>unescape\<close> reads such
  a text back.
\<close>

fun escaped :: "ustr \<Rightarrow> bool" where
  "escaped [] = True"
| "escaped (c # cs) =
     (if c = BACKSLASH then
        (case cs of
           [] \<Rightarrow> False
         | d # ds \<Rightarrow> (d = BACKSLASH \<or> d = DQUOTE \<or> d = 110 \<or> d = 114) \<and> escaped ds)
      else c \<noteq> DQUOTE \<and> c \<noteq> NEWLINE \<and> c \<noteq> CR \<and> escaped cs)"

fun unescape :: "ustr \<Rightarrow> ustr" where
  "unescape [] = []"
| "unescape [c] = [c]"
| "unescape (c # d # cs) =
     (if c = BACKSLASH then
        (if d = 110 then NEWLINE else if d = 114 then CR else d) # unescape cs
      else c # unescape (d # cs))"

text \<open>What the four replacements of \<open>json_safe\<close> do to one character.\<close>

definition escape_char :: "uchar \<Rightarrow> ustr" where
  "escape_char c =
     (if c = BACKSLASH then [BACKSLASH, BACKSLASH]
      else if c = DQUOTE then [BACKSLASH, DQUOTE]
      else if c = NEWLINE then [BACKSLASH, 110]
      else if c = CR then [BACKSLASH, 114]
      else [c])"

text \<open>
  The prompt of the Report Stage, built from pieces that are escaped already: the query,
  and for each outcome its query, its reason and its urls.
\<close>

definition spec_digest :: "(ustr \<times> ustr \<times> ustr list) list \<Rightarrow> ustr" where
  "spec_digest outcomes =
     join [NEWLINE, NEWLINE]
       (map (\<lambda>(i, (q, why, urls)).
              ascii ''Search '' @ str_of_nat (i + 1) @ ascii '': '' @ q @
              [NEWLINE] @ ascii ''Reason: '' @ why @
              [NEWLINE] @ ascii ''References:'' @ [NEWLINE] @
              join [NEWLINE] (map (\<lambda>(j, url). str_of_nat (j + 1) @ ascii ''. '' @ url) (enumerate 0 urls)))
          (enumerate 0 outcomes))"

definition spec_prompt :: "ustr \<Rightarrow> (ustr \<times> ustr \<times> ustr list) list \<Rightarrow> ustr" where
  "spec_prompt q outcomes =
     REPORT_WRITER_INSTRUCTION @ [NEWLINE, NEWLINE] @
     ascii ''Original Research Query: '' @ q @ [NEWLINE, NEWLINE] @
     ascii ''Search Results:'' @ [NEWLINE] @ spec_digest outcomes @
     [NEWLINE, NEWLINE] @
     ascii ''Please write a comprehensive report in JSON format with short_summary, markdown_report, and follow_up_questions.''"

definition escaped_outcome :: "search_output \<Rightarrow> ustr \<times> ustr \<times> ustr list" where
  "escaped_outcome r =
     (json_safe (out_query r), json_safe (out_reason r),
      map (\<lambda>res. json_safe (dict_get res (ascii ''url'') [])) (results r))"

definition is_generate :: "event \<Rightarrow> bool" where
  "is_generate e = (case e of GenerateCall _ \<Rightarrow> True | _ \<Rightarrow> False)"


section \<open>What the specification asks of the reference list\<close>

text \<open>
  The key of a record, the records of all outcomes in the order of the two loops, and the
  keys that are cited: those with a non-empty url, each at its first occurrence.
\<close>

definition ref_key :: "result_dict \<Rightarrow> ustr \<times> ustr" where
  "ref_key res = (dict_get res (ascii ''title'') (ascii ''No title''), dict_get res (ascii ''url'') [])"

definition all_records :: "search_output list \<Rightarrow> result_dict list" where
  "all_records search_results = concat (map results search_results)"

fun first_occurrences :: "'a list \<Rightarrow> 'a list" where
  "first_occurrences [] = []"
| "first_occurrences (x # xs) = x # filter (\<lambda>y. y \<noteq> x) (first_occurrences xs)"

definition spec_cited :: "search_output list \<Rightarrow> (ustr \<times> ustr) list" where
  "spec_cited search_results =
     first_occurrences (filter (\<lambda>k. snd k \<noteq> []) (map ref_key (all_records search_results)))"

definition reference_entry :: "nat \<Rightarrow> ustr \<times> ustr \<Rightarrow> ustr" where
  "reference_entry i k =
     str_of_nat i @ ascii ''. ['' @ fst k @ ascii '']('' @ snd k @ ascii '')'' @ [NEWLINE]"

definition spec_references :: "(ustr \<times> ustr) list \<Rightarrow> ustr" where
  "spec_references ks =
     ascii ''## References'' @ [NEWLINE, NEWLINE] @
     concat (map (\<lambda>(i, k). reference_entry i k) (zip [1 ..< Suc (length ks)] ks))"

text \<open>The keys that the loop adds when it starts with the set \<open>seen\<close>.\<close>

fun fresh_keys :: "(ustr \<times> ustr) set \<Rightarrow> (ustr \<times> ustr) list \<Rightarrow> (ustr \<times> ustr) list" where
  "fresh_keys seen [] = []"
| "fresh_keys seen (k # ks) =
     (if k \<notin> seen \<and> snd k \<noteq> [] then k # fresh_keys (insert k seen) ks
      else fresh_keys seen ks)"

section \<open>Sample data\<close>

text \<open>Sample outcomes: the same title and url cited by two outcomes, and a record without url.\<close>

definition demo_record :: "ustr \<Rightarrow> ustr \<Rightarrow> ustr \<Rightarrow> result_dict" where
  "demo_record t u s = [ascii ''title'' \<mapsto> t, ascii ''url'' \<mapsto> u, ascii ''snippet'' \<mapsto> s]"

definition demo_outcome :: "ustr \<Rightarrow> result_dict list \<Rightarrow> search_output" where
  "demo_outcome q rs = \<lparr>out_query = q, out_reason = ascii ''why'', results = rs, summary = []\<rparr>"

definition demo_outcomes :: "search_output list" where
  "demo_outcomes =
     [demo_outcome (ascii ''q1'')
        [demo_record (ascii ''A'') (ascii ''http://a'') (ascii ''first''),
         demo_record (ascii ''B'') (ascii ''http://b'') []],
      demo_outcome (ascii ''q2'')
        [demo_record (ascii ''C'') [] (ascii ''no url''),
         demo_record (ascii ''A'') (ascii ''http://a'') (ascii ''second'')]]"

definition demo_outcomes_swapped :: "search_output list" where
  "demo_outcomes_swapped =
     [demo_outcome (ascii ''q1'')
        [demo_record (ascii ''A'') (ascii ''http://a'') (ascii ''second''),
         demo_record (ascii ''B'') (ascii ''http://b'') []],
      demo_outcome (ascii ''q2'')
        [demo_record (ascii ''C'') [] (ascii ''no url''),
         demo_record (ascii ''A'') (ascii ''http://a'') (ascii ''first'')]]"

definition demo_uncitable :: "search_output list" where
  "demo_uncitable =
     [demo_outcome (ascii ''q1'')
        [demo_record (ascii ''A'') [] [], [ascii ''title'' \<mapsto> ascii ''D'']],
      demo_outcome (ascii ''q2'') []]"


section \<open>Observing the Search Stage\<close>

text \<open>The events of a log that are calls of the search provider.\<close>

definition is_search :: "event \<Rightarrow> bool" where
  "is_search e = (case e of SearchCall _ \<Rightarrow> True | _ \<Rightarrow> False)"

text \<open>
  The hits that \<open>search_web\<close> iterates over: \<open>data.get("organic_results", [])\<close>.
\<close>

definition organic :: "serp_data \<Rightarrow> result_dict list" where
  "organic data = (case organic_results data of None \<Rightarrow> [] | Some found \<Rightarrow> found)"

section \<open>Sample worlds and plans\<close>

text \<open>
  Collaborators without a state of their own, for running the program on samples: the
  model answers by the prompt, the provider by the query.
\<close>

definition stateless ::
  "(ustr \<Rightarrow> exn + ustr) \<Rightarrow> (ustr \<Rightarrow> exn + serp_data) \<Rightarrow> (ustr \<Rightarrow> loads_error + (ustr \<times> json) list)
     \<Rightarrow> unit collaborators" where
  "stateless llm serp loads =
     \<lparr>generate_content = (\<lambda>req w. (llm (contents req), w)),
      get_dict = (\<lambda>params w. (serp (param_q params), w)),
      progress = (\<lambda>fraction desc w. w),
      json_loads = loads,
      validation_str = (\<lambda>cls errs. cls)\<rparr>"

definition demo_serp :: "ustr \<Rightarrow> exn + serp_data" where
  "demo_serp q =
     (if q = ascii ''down'' then Inl (Raised (ascii ''Invalid API key''))
      else if q = ascii ''nothing'' then Inr \<lparr>organic_results = None\<rparr>
      else Inr \<lparr>organic_results = Some
             [[ascii ''title'' \<mapsto> ascii ''T'', ascii ''link'' \<mapsto> ascii ''http://t'',
               ascii ''snippet'' \<mapsto> ascii ''S''],
              [ascii ''position'' \<mapsto> ascii ''2'']]\<rparr>)"

definition demo_llm :: "ustr \<Rightarrow> exn + ustr" where
  "demo_llm prompt = Inl (Raised (ascii ''offline''))"

definition demo_env :: "unit collaborators" where
  "demo_env = stateless demo_llm demo_serp (\<lambda>s. Inl (JSONDecodeError (ascii ''Expecting value'')))"

text \<open>Two sample plans; the provider fails on the second query of the second plan.\<close>

definition demo_plan :: WebSearchPlan where
  "demo_plan =
     \<lparr>searches = [\<lparr>reason = ascii ''pets'', query = ascii ''cats''\<rparr>,
                  \<lparr>reason = ascii ''control'', query = ascii ''nothing''\<rparr>]\<rparr>"

definition demo_plan_failing :: WebSearchPlan where
  "demo_plan_failing =
     \<lparr>searches = [\<lparr>reason = ascii ''pets'', query = ascii ''cats''\<rparr>,
                  \<lparr>reason = ascii ''outage'', query = ascii ''down''\<rparr>,
                  \<lparr>reason = ascii ''more pets'', query = ascii ''dogs''\<rparr>]\<rparr>"


section \<open>What validation of a plan comes to\<close>

text \<open>
  What the validation of one plan item comes to: the value is a dict that holds the strings
  of the item under the keys reason and query.
\<close>

definition well_formed_item :: "json \<Rightarrow> WebSearchItem \<Rightarrow> bool" where
  "well_formed_item v item =
     (case v of
        JDict d \<Rightarrow> map_of d (ascii ''reason'') = Some (JStr (reason item)) \<and>
                   map_of d (ascii ''query'') = Some (JStr (query item))
      | _ \<Rightarrow> False)"

text \<open>Sample model output: one item with empty strings, and a plan whose second item has no query.\<close>

definition demo_short_plan_data :: "(ustr \<times> json) list" where
  "demo_short_plan_data =
     [(ascii ''searches'', JList [JDict [(ascii ''reason'', JStr []), (ascii ''query'', JStr [])]])]"

definition demo_bad_plan_data :: "(ustr \<times> json) list" where
  "demo_bad_plan_data =
     [(ascii ''searches'',
       JList [JDict [(ascii ''reason'', JStr (ascii ''r1'')), (ascii ''query'', JStr (ascii ''q1''))],
              JDict [(ascii ''reason'', JStr (ascii ''r2''))]])]"

text \<open>Sample model output that validates: two items, with keys the schema does not declare.\<close>

definition demo_plan_data :: "(ustr \<times> json) list" where
  "demo_plan_data =
     [(ascii ''note'', JNull),
      (ascii ''searches'',
       JList [JDict [(ascii ''reason'', JStr (ascii ''pets'')), (ascii ''query'', JStr (ascii ''cats''))],
              JDict [(ascii ''query'', JStr (ascii ''nothing'')), (ascii ''reason'', JStr (ascii ''control'')),
                     (ascii ''rank'', JInt 2)]])]"


section \<open>The validation rule of the pipeline\<close>

text \<open>The descriptions of the first two progress events of a run that passes validation.\<close>

definition STARTING_DESC :: ustr where
  "STARTING_DESC = [287, 376, 353, 8364] @ ascii '' Starting research pipeline...''"

definition PLANNING_DESC :: ustr where
  "PLANNING_DESC = [287, 376, 167, 160] @ ascii '' Planning research strategy...''"

text \<open>
  The two readings of the validation rule: the one of the source, on the query without its
  leading and trailing whitespace, and the one of the specification, on the characters of
  the query that are not whitespace.
\<close>

definition rejected :: "ustr \<Rightarrow> bool" where
  "rejected q \<longleftrightarrow> q = [] \<or> length (strip q) < 3"

definition spec_rejected :: "ustr \<Rightarrow> bool" where
  "spec_rejected q \<longleftrightarrow> q = [] \<or> length (filter (\<lambda>c. \<not> isspace c) q) < 3"

text \<open>
  A second sample world: the model answers with a plan of three searches, and the provider
  fails on the second of them.
\<close>

definition demo_failing_plan_data :: "(ustr \<times> json) list" where
  "demo_failing_plan_data =
     [(ascii ''searches'',
       JList [JDict [(ascii ''reason'', JStr (ascii ''pets'')), (ascii ''query'', JStr (ascii ''cats''))],
              JDict [(ascii ''reason'', JStr (ascii ''outage'')), (ascii ''query'', JStr (ascii ''down''))],
              JDict [(ascii ''reason'', JStr (ascii ''more pets'')), (ascii ''query'', JStr (ascii ''dogs''))]])]"

definition demo_env2 :: "unit collaborators" where
  "demo_env2 = stateless (\<lambda>prompt. Inr (ascii ''Here is the plan: {...}''))
                 demo_serp (\<lambda>s. Inr demo_failing_plan_data)"


section \<open>Properties\<close>

lemma star_close_None: "star_close s = None \<longleftrightarrow> RBRACE \<notin> set s"
  by (induction s) (auto split: option.splits)

lemma star_close_Some:
  "star_close s = Some m \<longleftrightarrow> (\<exists>post. s = m @ post \<and> m \<noteq> [] \<and> last m = RBRACE \<and> RBRACE \<notin> set post)"
proof (induction s arbitrary: m)
  case Nil
  then show ?case by auto
next
  case (Cons c cs)
  show ?case
  proof (cases "star_close cs")
    case None
    then have nb: "RBRACE \<notin> set cs" by (simp add: star_close_None)
    show ?thesis
    proof
      assume "star_close (c # cs) = Some m"
      with None have "c = RBRACE" "m = [c]" by (auto split: if_splits)
      with nb show "\<exists>post. c # cs = m @ post \<and> m \<noteq> [] \<and> last m = RBRACE \<and> RBRACE \<notin> set post"
        by auto
    next
      assume "\<exists>post. c # cs = m @ post \<and> m \<noteq> [] \<and> last m = RBRACE \<and> RBRACE \<notin> set post"
      then obtain post where p: "c # cs = m @ post" "m \<noteq> []" "last m = RBRACE" "RBRACE \<notin> set post"
        by blast
      then obtain m' where m': "m = c # m'" "cs = m' @ post" by (cases m) auto
      have "m' = []"
      proof (rule ccontr)
        assume "m' \<noteq> []"
        with p m' have "last m' = RBRACE" by simp
        with \<open>m' \<noteq> []\<close> have "RBRACE \<in> set m'" using last_in_set by metis
        with m' nb show False by simp
      qed
      with p m' None show "star_close (c # cs) = Some m" by simp
    qed
  next
    case (Some m0)
    then obtain post0 where p0: "cs = m0 @ post0" "m0 \<noteq> []" "last m0 = RBRACE" "RBRACE \<notin> set post0"
      using Cons.IH by blast
    show ?thesis
    proof
      assume "star_close (c # cs) = Some m"
      with Some have "m = c # m0" by simp
      with p0 show "\<exists>post. c # cs = m @ post \<and> m \<noteq> [] \<and> last m = RBRACE \<and> RBRACE \<notin> set post"
        by auto
    next
      assume "\<exists>post. c # cs = m @ post \<and> m \<noteq> [] \<and> last m = RBRACE \<and> RBRACE \<notin> set post"
      then obtain post where p: "c # cs = m @ post" "m \<noteq> []" "last m = RBRACE" "RBRACE \<notin> set post"
        by blast
      then obtain m' where m': "m = c # m'" "cs = m' @ post" by (cases m) auto
      have "m' \<noteq> []"
      proof
        assume "m' = []"
        with m' p have "RBRACE \<notin> set cs" by simp
        with Some show False by (simp add: star_close_None[symmetric])
      qed
      with p m' have "star_close cs = Some m'" using Cons.IH[of m'] by auto
      with Some m' show "star_close (c # cs) = Some m" by simp
    qed
  qed
qed

lemma match_here_Some:
  "match_here s = Some m \<longleftrightarrow>
     (\<exists>mid post. s = m @ post \<and> m = LBRACE # mid @ [RBRACE] \<and> RBRACE \<notin> set post)"
proof (cases s)
  case Nil
  then show ?thesis by auto
next
  case (Cons c cs)
  show ?thesis
  proof
    assume "match_here s = Some m"
    with Cons obtain m' where m': "c = LBRACE" "star_close cs = Some m'" "m = c # m'"
      by (auto split: if_splits)
    then obtain post where p: "cs = m' @ post" "m' \<noteq> []" "last m' = RBRACE" "RBRACE \<notin> set post"
      by (auto simp: star_close_Some)
    then have "m' = butlast m' @ [RBRACE]" by (metis append_butlast_last_id)
    with m' p Cons show "\<exists>mid post. s = m @ post \<and> m = LBRACE # mid @ [RBRACE] \<and> RBRACE \<notin> set post"
      by auto
  next
    assume "\<exists>mid post. s = m @ post \<and> m = LBRACE # mid @ [RBRACE] \<and> RBRACE \<notin> set post"
    then obtain mid post where p: "s = m @ post" "m = LBRACE # mid @ [RBRACE]" "RBRACE \<notin> set post"
      by blast
    with Cons have c: "c = LBRACE" "cs = (mid @ [RBRACE]) @ post" by auto
    have "star_close cs = Some (mid @ [RBRACE])"
      unfolding star_close_Some using c p by auto
    with c p Cons show "match_here s = Some m" by simp
  qed
qed

lemma match_here_None: "match_here s = None \<longleftrightarrow> (s = [] \<or> hd s \<noteq> LBRACE \<or> RBRACE \<notin> set (tl s))"
  by (cases s) (auto simp: star_close_None)

lemma re_search_split:
  "span_split s pre m post \<Longrightarrow> re_search s = Some m"
proof (induction pre arbitrary: s)
  case Nil
  then obtain mid where "s = m @ post" "m = LBRACE # mid @ [RBRACE]" "RBRACE \<notin> set post"
    by (auto simp: span_split_def)
  then have "match_here s = Some m" unfolding match_here_Some by blast
  then show ?case by (cases s) auto
next
  case (Cons c pre)
  then have t: "s = c # (pre @ m @ post)" and c: "c \<noteq> LBRACE"
    and s: "span_split (pre @ m @ post) pre m post"
    by (auto simp: span_split_def)
  from Cons.IH[OF s] t c show ?case by simp
qed

lemma re_search_Some_split:
  "re_search s = Some m \<Longrightarrow> \<exists>pre post. span_split s pre m post"
proof (induction s)
  case Nil
  then show ?case by simp
next
  case (Cons c cs)
  show ?case
  proof (cases "match_here (c # cs)")
    case (Some m0)
    with Cons.prems have "m0 = m" by simp
    with Some obtain mid post where "c # cs = m @ post" "m = LBRACE # mid @ [RBRACE]" "RBRACE \<notin> set post"
      unfolding match_here_Some by blast
    then have "span_split (c # cs) [] m post" by (auto simp: span_split_def)
    then show ?thesis by blast
  next
    case None
    with Cons.prems have r: "re_search cs = Some m" by simp
    then obtain pre post where s: "span_split cs pre m post" using Cons.IH by blast
    have "c \<noteq> LBRACE"
    proof
      assume "c = LBRACE"
      with None have "RBRACE \<notin> set cs" by (simp add: star_close_None)
      with s show False by (auto simp: span_split_def)
    qed
    with s have "span_split (c # cs) (c # pre) m post" by (auto simp: span_split_def)
    then show ?thesis by blast
  qed
qed

lemma first_index_split: "c \<notin> set pre \<Longrightarrow> first_index c (pre @ c # rest) = length pre"
  by (induction pre) (auto simp: first_index_def)

lemma last_index_split: "c \<notin> set post \<Longrightarrow> last_index c (pre @ c # post) = length pre"
proof -
  assume a: "c \<notin> set post"
  have "rev (pre @ c # post) = rev post @ c # rev pre" by simp
  moreover from a have "c \<notin> set (rev post)" by simp
  ultimately have "first_index c (rev (pre @ c # post)) = length (rev post)"
    using first_index_split by metis
  then show ?thesis by (simp add: last_index_def)
qed

lemma spec_greedy_span_split:
  assumes "span_split s pre m post"
  shows "spec_greedy_span s = m"
proof -
  from assms obtain mid where t: "s = pre @ m @ post" and m: "m = LBRACE # mid @ [RBRACE]"
    and pre: "LBRACE \<notin> set pre" and post: "RBRACE \<notin> set post"
    by (auto simp: span_split_def)
  have f: "first_index LBRACE s = length pre"
    using first_index_split[OF pre, of "mid @ [RBRACE] @ post"] t m by simp
  have "s = (pre @ LBRACE # mid) @ RBRACE # post" using t m by simp
  then have l: "last_index RBRACE s = length (pre @ LBRACE # mid)"
    using last_index_split[OF post, of "pre @ LBRACE # mid"] by simp
  have "Suc (last_index RBRACE s) - first_index LBRACE s = length m"
    using f l m by simp
  moreover have "drop (first_index LBRACE s) s = m @ post" using f t by simp
  ultimately show ?thesis by (simp add: spec_greedy_span_def)
qed

lemma brace_pair_split:
  assumes "brace_pair s"
  shows "\<exists>pre m post. span_split s pre m post"
proof -
  from assms obtain i j where ij: "i < j" "j < length s" "s ! i = LBRACE" "s ! j = RBRACE"
    by (auto simp: brace_pair_def)
  define pre where "pre = takeWhile (\<lambda>x. x \<noteq> LBRACE) s"
  define rest where "rest = dropWhile (\<lambda>x. x \<noteq> LBRACE) s"
  have t: "s = pre @ rest" by (simp add: pre_def rest_def)
  have pre: "LBRACE \<notin> set pre" unfolding pre_def by (auto dest: set_takeWhileD)
  have "LBRACE \<in> set s" using ij by (metis less_trans nth_mem)
  then have "rest \<noteq> []" unfolding rest_def by auto
  then have "hd rest = LBRACE"
    unfolding rest_def using hd_dropWhile[of "\<lambda>x. x \<noteq> LBRACE" s] by simp
  with \<open>rest \<noteq> []\<close> obtain r where r: "rest = LBRACE # r" by (cases rest) auto
  have "length pre \<le> i"
  proof (rule ccontr)
    assume "\<not> length pre \<le> i"
    then have "i < length pre" by simp
    then have "s ! i \<in> set pre" using t by (simp add: nth_append)
    with pre ij show False by simp
  qed
  with ij have "s ! j = r ! (j - Suc (length pre))" "j - Suc (length pre) < length r"
    using t r by (auto simp: nth_append nth_Cons')
  then have "RBRACE \<in> set r" using ij by (metis nth_mem)
  then obtain ys zs where s: "r = ys @ RBRACE # zs" "RBRACE \<notin> set zs"
    using split_list_last by metis
  have "span_split s pre (LBRACE # ys @ [RBRACE]) zs"
    using t r s pre by (auto simp: span_split_def)
  then show ?thesis by blast
qed

lemma split_brace_pair:
  assumes "span_split s pre m post"
  shows "brace_pair s"
proof -
  from assms obtain mid where t: "s = pre @ (LBRACE # mid) @ RBRACE # post"
    by (auto simp: span_split_def)
  have "s ! length pre = LBRACE" using t by (simp add: nth_append)
  moreover have "s ! (length pre + Suc (length mid)) = RBRACE"
    using t by (simp add: nth_append)
  moreover have "length pre + Suc (length mid) < length s" using t by simp
  ultimately show ?thesis unfolding brace_pair_def
    by (intro exI[of _ "length pre"] exI[of _ "length pre + Suc (length mid)"]) simp
qed

lemma re_search_brace_pair: "brace_pair s \<Longrightarrow> re_search s = Some (spec_greedy_span s)"
  using brace_pair_split re_search_split spec_greedy_span_split by metis

lemma re_search_no_pair: "\<not> brace_pair s \<Longrightarrow> re_search s = None"
  using re_search_Some_split split_brace_pair by (metis not_Some_eq)

lemma brace_pair_code:
  "brace_pair s \<longleftrightarrow> RBRACE \<in> set (dropWhile (\<lambda>c. c \<noteq> LBRACE) s)"
proof
  assume "brace_pair s"
  then obtain pre m post where "span_split s pre m post" using brace_pair_split by blast
  then obtain mid where t: "s = pre @ (LBRACE # mid @ [RBRACE]) @ post" and pre: "LBRACE \<notin> set pre"
    by (auto simp: span_split_def)
  from pre have "dropWhile (\<lambda>c. c \<noteq> LBRACE) s = (LBRACE # mid @ [RBRACE]) @ post"
    unfolding t by (subst dropWhile_append2) auto
  then show "RBRACE \<in> set (dropWhile (\<lambda>c. c \<noteq> LBRACE) s)" by simp
next
  assume a: "RBRACE \<in> set (dropWhile (\<lambda>c. c \<noteq> LBRACE) s)"
  define pre where "pre = takeWhile (\<lambda>x. x \<noteq> LBRACE) s"
  define rest where "rest = dropWhile (\<lambda>x. x \<noteq> LBRACE) s"
  have t: "s = pre @ rest" by (simp add: pre_def rest_def)
  have pre: "LBRACE \<notin> set pre" unfolding pre_def by (auto dest: set_takeWhileD)
  from a have a': "RBRACE \<in> set rest" by (simp add: rest_def)
  then have ne: "rest \<noteq> []" by auto
  then have "hd rest = LBRACE"
    unfolding rest_def using hd_dropWhile[of "\<lambda>x. x \<noteq> LBRACE" s] by simp
  with ne obtain r where r: "rest = LBRACE # r" by (cases rest) auto
  with a' have "RBRACE \<in> set r" by (simp add: LBRACE_def RBRACE_def)
  then obtain ys zs where s: "r = ys @ RBRACE # zs" "RBRACE \<notin> set zs"
    using split_list_last by metis
  have "span_split s pre (LBRACE # ys @ [RBRACE]) zs"
    using t r s pre by (auto simp: span_split_def)
  then show "brace_pair s" by (rule split_brace_pair)
qed

lemma span_indices:
  assumes "span_split s pre m post"
  shows "first_index LBRACE s = length pre" "last_index RBRACE s = length pre + length m - 1"
proof -
  from assms obtain mid where t: "s = pre @ m @ post" and m: "m = LBRACE # mid @ [RBRACE]"
    and pre: "LBRACE \<notin> set pre" and post: "RBRACE \<notin> set post"
    by (auto simp: span_split_def)
  show "first_index LBRACE s = length pre"
    using first_index_split[OF pre, of "mid @ [RBRACE] @ post"] t m by simp
  have "s = (pre @ LBRACE # mid) @ RBRACE # post" using t m by simp
  then have "last_index RBRACE s = length (pre @ LBRACE # mid)"
    using last_index_split[OF post, of "pre @ LBRACE # mid"] by simp
  then show "last_index RBRACE s = length pre + length m - 1" using m by simp
qed

lemma first_index_least: "k < first_index c s \<Longrightarrow> s ! k \<noteq> c"
  unfolding first_index_def using nth_length_takeWhile takeWhile_nth
  by (metis (mono_tags, lifting) nth_mem set_takeWhileD)

lemma span_bounds:
  assumes "brace_pair s"
  shows "first_index LBRACE s < last_index RBRACE s \<and> last_index RBRACE s < length s \<and>
         s ! first_index LBRACE s = LBRACE \<and> s ! last_index RBRACE s = RBRACE \<and>
         (\<forall>k < first_index LBRACE s. s ! k \<noteq> LBRACE) \<and>
         (\<forall>k. last_index RBRACE s < k \<and> k < length s \<longrightarrow> s ! k \<noteq> RBRACE)"
proof -
  from assms obtain pre m post where sp: "span_split s pre m post" using brace_pair_split by blast
  then obtain mid where t: "s = pre @ (LBRACE # mid) @ RBRACE # post"
    and m: "m = LBRACE # mid @ [RBRACE]" and post: "RBRACE \<notin> set post"
    by (auto simp: span_split_def)
  have f: "first_index LBRACE s = length pre" and l: "last_index RBRACE s = length pre + Suc (length mid)"
    using span_indices[OF sp] m by auto
  have 1: "s ! length pre = LBRACE" using t by (simp add: nth_append)
  have 2: "s ! (length pre + Suc (length mid)) = RBRACE" using t by (simp add: nth_append)
  have 3: "\<forall>k. length pre + Suc (length mid) < k \<and> k < length s \<longrightarrow> s ! k \<noteq> RBRACE"
  proof (intro allI impI)
    fix k assume k: "length pre + Suc (length mid) < k \<and> k < length s"
    then have "s ! k = post ! (k - (length pre + Suc (Suc (length mid))))"
      and "k - (length pre + Suc (Suc (length mid))) < length post"
      unfolding t by (auto simp: nth_append nth_Cons')
    then have "s ! k \<in> set post" by (metis nth_mem)
    with post show "s ! k \<noteq> RBRACE" by auto
  qed
  show ?thesis using f l 1 2 3 t first_index_least[of _ LBRACE s] by auto
qed

text \<open>
  C1. When the text holds a \<open>{\<close> with a \<open>}\<close> somewhere after it, the match is exactly the
  span from the first \<open>{\<close> of the text to its last \<open>}\<close>, and the extractor returns what
  the parser makes of that span. In particular, for one object (a text that starts with
  \<open>{\<close>, ends with \<open>}\<close> and parses to a value) between two pieces of prose without
  braces, the extractor returns the value of the object.
\<close>
theorem extract_json_greedy_span:
  "(brace_pair s \<longrightarrow>
      first_index LBRACE s < last_index RBRACE s \<and> last_index RBRACE s < length s \<and>
      s ! first_index LBRACE s = LBRACE \<and> s ! last_index RBRACE s = RBRACE \<and>
      (\<forall>k < first_index LBRACE s. s ! k \<noteq> LBRACE) \<and>
      (\<forall>k. last_index RBRACE s < k \<and> k < length s \<longrightarrow> s ! k \<noteq> RBRACE) \<and>
      re_search s = Some (spec_greedy_span s) \<and>
      extract_json loads s =
        (case loads (spec_greedy_span s) of
           Inr v \<Rightarrow> Inr v
         | Inl (JSONDecodeError msg) \<Rightarrow> Inl (ValueError (parse_failure_msg msg s))
         | Inl (OtherError x) \<Rightarrow> Inl x))
   \<and> (LBRACE \<notin> set pre \<and> RBRACE \<notin> set pre \<and> LBRACE \<notin> set post \<and> RBRACE \<notin> set post \<and>
        loads (LBRACE # mid @ [RBRACE]) = Inr obj \<longrightarrow>
        extract_json loads (pre @ (LBRACE # mid @ [RBRACE]) @ post) = Inr obj)"
proof (intro conjI impI)
  assume bp: "brace_pair s"
  note b = span_bounds[OF bp]
  show "first_index LBRACE s < last_index RBRACE s" using b by blast
  show "last_index RBRACE s < length s" using b by blast
  show "s ! first_index LBRACE s = LBRACE" using b by blast
  show "s ! last_index RBRACE s = RBRACE" using b by blast
  show "\<forall>k < first_index LBRACE s. s ! k \<noteq> LBRACE" using b by blast
  show "\<forall>k. last_index RBRACE s < k \<and> k < length s \<longrightarrow> s ! k \<noteq> RBRACE" using b by blast
  show r: "re_search s = Some (spec_greedy_span s)" using bp by (rule re_search_brace_pair)
  show "extract_json loads s =
        (case loads (spec_greedy_span s) of
           Inr v \<Rightarrow> Inr v
         | Inl (JSONDecodeError msg) \<Rightarrow> Inl (ValueError (parse_failure_msg msg s))
         | Inl (OtherError x) \<Rightarrow> Inl x)"
    by (simp add: extract_json_def r)
next
  assume a: "LBRACE \<notin> set pre \<and> RBRACE \<notin> set pre \<and> LBRACE \<notin> set post \<and> RBRACE \<notin> set post \<and>
        loads (LBRACE # mid @ [RBRACE]) = Inr obj"
  then have "span_split (pre @ (LBRACE # mid @ [RBRACE]) @ post) pre (LBRACE # mid @ [RBRACE]) post"
    by (simp add: span_split_def)
  then have "re_search (pre @ (LBRACE # mid @ [RBRACE]) @ post) = Some (LBRACE # mid @ [RBRACE])"
    by (rule re_search_split)
  with a show "extract_json loads (pre @ (LBRACE # mid @ [RBRACE]) @ post) = Inr obj"
    by (simp add: extract_json_def)
qed


theorem extract_json_greedy_span_witness:
  "brace_pair (ascii ''Plan: {\"n\": 7} done'') \<and>
   spec_greedy_span (ascii ''Plan: {\"n\": 7} done'') = ascii ''{\"n\": 7}'' \<and>
   extract_json toy_loads (ascii ''Plan: {\"n\": 7} done'') = Inr 7 \<and>
   extract_json toy_loads (ascii ''Plan: '' @ (LBRACE # ascii ''\"n\": 7'' @ [RBRACE]) @ ascii '' done'') = Inr 7"
proof -
  have bp: "brace_pair (ascii ''Plan: {\"n\": 7} done'')"
    by (simp add: brace_pair_code ascii_def LBRACE_def RBRACE_def)
  have sp: "spec_greedy_span (ascii ''Plan: {\"n\": 7} done'') = ascii ''{\"n\": 7}''"
    by (simp add: spec_greedy_span_def first_index_def last_index_def ascii_def LBRACE_def RBRACE_def)
  have ld: "toy_loads (LBRACE # ascii ''\"n\": 7'' @ [RBRACE]) = Inr 7"
    by (simp add: toy_loads_def ascii_def LBRACE_def RBRACE_def)
  have nb: "LBRACE \<notin> set (ascii ''Plan: '') \<and> RBRACE \<notin> set (ascii ''Plan: '') \<and>
            LBRACE \<notin> set (ascii '' done'') \<and> RBRACE \<notin> set (ascii '' done'')"
    by (simp add: ascii_def LBRACE_def RBRACE_def)
  from extract_json_greedy_span[of "ascii ''Plan: {\"n\": 7} done''" toy_loads
      "ascii ''Plan: ''" "ascii '' done''" "ascii ''\"n\": 7''" 7] bp sp ld nb
  show ?thesis by (simp add: toy_loads_def)
qed

lemma extract_json_cases:
  "extract_json loads s =
     (if brace_pair s then
        (case loads (spec_greedy_span s) of
           Inr v \<Rightarrow> Inr v
         | Inl (JSONDecodeError msg) \<Rightarrow> Inl (ValueError (parse_failure_msg msg s))
         | Inl (OtherError x) \<Rightarrow> Inl x)
      else Inl (ValueError NO_JSON_MSG))"
  by (simp add: extract_json_def re_search_no_pair re_search_brace_pair)

lemma deep_text_split: "span_split deep_text [] deep_text []"
  unfolding span_split_def deep_text_def
  by (intro conjI exI[of _ "ascii ''\"a\": '' @ replicate 100000 91 @ replicate 100000 93"])
     simp_all

text \<open>
  C2, as the specification states it, fails: on an object whose value is nested 100000
  deep the parser raises a \<open>RecursionError\<close>, which is not a \<open>JSONDecodeError\<close>; the extractor
  lets it through as it is, and the error is neither of the two that the claim allows.
\<close>
theorem extract_json_failures_counterexample:
  "brace_pair deep_text \<and>
   spec_greedy_span deep_text = deep_text \<and>
   deep_loads deep_text = Inl (OtherError (Raised RECURSION_MSG)) \<and>
   extract_json deep_loads deep_text = Inl (Raised RECURSION_MSG) \<and>
   extract_json deep_loads deep_text \<noteq> Inl (ValueError (ascii ''No JSON object found in text.'')) \<and>
   extract_json deep_loads deep_text \<noteq>
     Inl (ValueError (ascii ''Failed to parse JSON: '' @ RECURSION_MSG @ ascii ''\<newline>Preview: '' @
                      take 500 deep_text))"
proof -
  have b: "brace_pair deep_text" using deep_text_split by (rule split_brace_pair)
  have g: "spec_greedy_span deep_text = deep_text"
    using deep_text_split by (rule spec_greedy_span_split)
  have l: "deep_loads deep_text = Inl (OtherError (Raised RECURSION_MSG))"
    by (simp add: deep_loads_def)
  have e: "extract_json deep_loads deep_text = Inl (Raised RECURSION_MSG)"
    by (simp add: extract_json_cases b g l)
  have n: "extract_json deep_loads deep_text \<noteq> Inl (ValueError m)" for m
    unfolding e by simp
  from b g l e n show ?thesis by blast
qed

text \<open>
  C2, amended. The extractor fails in three ways only. Without a \<open>{\<close> that has a \<open>}\<close> after
  it, it raises the error "No JSON object found in text."; when the parser rejects the
  greedy span with a decode error, it raises an error whose message holds the parser's
  reason and the first 500 characters of the input; when the parser raises any other
  exception, that exception leaves the extractor as it is. Every other text gives the
  parsed value, and the result depends on nothing but the text and the parser.
\<close>
theorem extract_json_failures:
  "(\<not> brace_pair s \<longrightarrow> extract_json loads s = Inl (ValueError (ascii ''No JSON object found in text.'')))
   \<and> (brace_pair s \<and> loads (spec_greedy_span s) = Inl (JSONDecodeError msg) \<longrightarrow>
        extract_json loads s =
          Inl (ValueError (ascii ''Failed to parse JSON: '' @ msg @ ascii ''\<newline>Preview: '' @ take 500 s)))
   \<and> (brace_pair s \<and> loads (spec_greedy_span s) = Inl (OtherError x) \<longrightarrow>
        extract_json loads s = Inl x)
   \<and> (brace_pair s \<and> loads (spec_greedy_span s) = Inr v \<longrightarrow> extract_json loads s = Inr v)
   \<and> (\<forall>e. extract_json loads s = Inl e \<longrightarrow>
         (\<not> brace_pair s \<and> e = ValueError (ascii ''No JSON object found in text.'')) \<or>
         (\<exists>msg. brace_pair s \<and> loads (spec_greedy_span s) = Inl (JSONDecodeError msg) \<and>
            e = ValueError (ascii ''Failed to parse JSON: '' @ msg @ ascii ''\<newline>Preview: '' @ take 500 s)) \<or>
         (brace_pair s \<and> loads (spec_greedy_span s) = Inl (OtherError e)))"
proof (cases "brace_pair s")
  case True
  then show ?thesis
    by (auto simp: extract_json_cases parse_failure_msg_def split: sum.splits loads_error.splits)
next
  case False
  then show ?thesis by (simp add: extract_json_cases NO_JSON_MSG_def)
qed

theorem extract_json_failures_witness:
  "\<not> brace_pair (ascii ''I cannot help } with { that'') \<and>
   extract_json failing_loads (ascii ''I cannot help } with { that'') =
     Inl (ValueError (ascii ''No JSON object found in text.'')) \<and>
   brace_pair (ascii ''Sure: {oops}'') \<and>
   extract_json failing_loads (ascii ''Sure: {oops}'') =
     Inl (ValueError (ascii ''Failed to parse JSON: Expecting property name\<newline>Preview: Sure: {oops}'')) \<and>
   brace_pair (ascii ''Plan: {\"n\": 7} done'') \<and>
   extract_json toy_loads (ascii ''Plan: {\"n\": 7} done'') = Inr 7 \<and>
   brace_pair deep_text \<and>
   extract_json deep_loads deep_text = Inl (Raised RECURSION_MSG)"
proof -
  have n1: "\<not> brace_pair (ascii ''I cannot help } with { that'')"
    by (simp add: brace_pair_code ascii_def LBRACE_def RBRACE_def)
  have b2: "brace_pair (ascii ''Sure: {oops}'')"
    by (simp add: brace_pair_code ascii_def LBRACE_def RBRACE_def)
  have l2: "failing_loads (spec_greedy_span (ascii ''Sure: {oops}'')) =
            Inl (JSONDecodeError (ascii ''Expecting property name''))"
    by (simp add: failing_loads_def)
  have b3: "brace_pair (ascii ''Plan: {\"n\": 7} done'')"
    by (simp add: brace_pair_code ascii_def LBRACE_def RBRACE_def)
  have l3: "toy_loads (spec_greedy_span (ascii ''Plan: {\"n\": 7} done'')) = Inr 7"
    by (simp add: toy_loads_def spec_greedy_span_def first_index_def last_index_def ascii_def LBRACE_def RBRACE_def)
  have b4: "brace_pair deep_text" using deep_text_split by (rule split_brace_pair)
  have l4: "deep_loads (spec_greedy_span deep_text) = Inl (OtherError (Raised RECURSION_MSG))"
    using spec_greedy_span_split[OF deep_text_split] by (simp add: deep_loads_def)
  from extract_json_failures[of "ascii ''I cannot help } with { that''" failing_loads] n1
  have r1: "extract_json failing_loads (ascii ''I cannot help } with { that'') =
     Inl (ValueError (ascii ''No JSON object found in text.''))" by blast
  from extract_json_failures[of "ascii ''Sure: {oops}''" failing_loads "ascii ''Expecting property name''"] b2 l2
  have r2: "extract_json failing_loads (ascii ''Sure: {oops}'') =
     Inl (ValueError (ascii ''Failed to parse JSON: '' @ ascii ''Expecting property name'' @
        ascii ''\<newline>Preview: '' @ take 500 (ascii ''Sure: {oops}'')))" by blast
  from extract_json_failures[of "ascii ''Plan: {\"n\": 7} done''" toy_loads _ _ 7] b3 l3
  have r3: "extract_json toy_loads (ascii ''Plan: {\"n\": 7} done'') = Inr 7" by blast
  from extract_json_failures[of deep_text deep_loads _ "Raised RECURSION_MSG"] b4 l4
  have r4: "extract_json deep_loads deep_text = Inl (Raised RECURSION_MSG)" by blast
  from r2 have r2': "extract_json failing_loads (ascii ''Sure: {oops}'') =
     Inl (ValueError (ascii ''Failed to parse JSON: Expecting property name\<newline>Preview: Sure: {oops}''))"
    by (simp add: ascii_def)
  from n1 r1 b2 r2' b3 r3 b4 r4 show ?thesis by blast
qed

lemma replace_concat: "replace old new (concat xss) = concat (map (replace old new) xss)"
  by (induction xss) (auto simp: replace_def)

lemma replace_concat_map:
  "replace old new (concat (map f s)) = concat (map (\<lambda>c. replace old new (f c)) s)"
  by (simp add: replace_concat comp_def)

lemma replace_as_map: "replace old new s = concat (map (\<lambda>c. if c = old then new else [c]) s)"
  by (simp add: replace_def)

lemma json_safe_concat: "json_safe t = concat (map escape_char t)"
proof -
  have 1: "replace BACKSLASH [BACKSLASH, BACKSLASH] t =
           concat (map (\<lambda>c. if c = BACKSLASH then [BACKSLASH, BACKSLASH] else [c]) t)"
    by (rule replace_as_map)
  have 2: "replace DQUOTE [BACKSLASH, DQUOTE] (replace BACKSLASH [BACKSLASH, BACKSLASH] t) =
           concat (map (\<lambda>c. if c = BACKSLASH then [BACKSLASH, BACKSLASH]
                             else if c = DQUOTE then [BACKSLASH, DQUOTE] else [c]) t)"
    unfolding 1 replace_concat_map
    by (rule arg_cong[where f=concat], rule map_cong)
       (auto simp: replace_def BACKSLASH_def DQUOTE_def)
  have 3: "replace NEWLINE [BACKSLASH, 110]
             (replace DQUOTE [BACKSLASH, DQUOTE] (replace BACKSLASH [BACKSLASH, BACKSLASH] t)) =
           concat (map (\<lambda>c. if c = BACKSLASH then [BACKSLASH, BACKSLASH]
                             else if c = DQUOTE then [BACKSLASH, DQUOTE]
                             else if c = NEWLINE then [BACKSLASH, 110] else [c]) t)"
    unfolding 2 replace_concat_map
    by (rule arg_cong[where f=concat], rule map_cong)
       (auto simp: replace_def BACKSLASH_def DQUOTE_def NEWLINE_def)
  have 4: "replace CR [BACKSLASH, 114] (replace NEWLINE [BACKSLASH, 110]
             (replace DQUOTE [BACKSLASH, DQUOTE] (replace BACKSLASH [BACKSLASH, BACKSLASH] t))) =
           concat (map escape_char t)"
    unfolding 3 replace_concat_map
    by (rule arg_cong[where f=concat], rule map_cong)
       (auto simp: replace_def escape_char_def BACKSLASH_def DQUOTE_def NEWLINE_def CR_def)
  show ?thesis
  proof (cases "t = []")
    case True
    then show ?thesis by (simp add: json_safe_def)
  next
    case False
    then show ?thesis unfolding json_safe_def using 4 by simp
  qed
qed

lemma escaped_escape_char: "escaped (escape_char c @ xs) = escaped xs"
  by (simp add: escape_char_def BACKSLASH_def DQUOTE_def NEWLINE_def CR_def)

lemma escaped_json_safe: "escaped (json_safe t)"
  unfolding json_safe_concat by (induction t) (simp_all add: escaped_escape_char)

lemma unescape_escape_char: "unescape (escape_char c @ xs) = c # unescape xs"
  by (cases xs) (simp_all add: escape_char_def BACKSLASH_def DQUOTE_def NEWLINE_def CR_def)

lemma unescape_json_safe: "unescape (json_safe t) = t"
  unfolding json_safe_concat by (induction t) (simp_all add: unescape_escape_char)

lemma json_safe_no_newline: "NEWLINE \<notin> set (json_safe t)" "CR \<notin> set (json_safe t)"
  unfolding json_safe_concat
  by (induction t) (auto simp: escape_char_def BACKSLASH_def DQUOTE_def NEWLINE_def CR_def)

lemma enumerate_map: "enumerate n (map f xs) = map (\<lambda>(i, x). (i, f x)) (enumerate n xs)"
  by (induction xs arbitrary: n) auto

lemma results_summary_spec: "results_summary rs = spec_digest (map escaped_outcome rs)"
  by (simp add: results_summary_def spec_digest_def escaped_outcome_def enumerate_map
      comp_def case_prod_unfold)

lemma report_request_spec:
  "contents (report_request q rs) = spec_prompt (json_safe q) (map escaped_outcome rs)"
  by (simp add: report_request_def spec_prompt_def results_summary_spec)

lemma write_report_logged_calls:
  "filter is_generate (fst (snd (write_report (logged env) q rs (evs, w)))) =
   filter is_generate evs @ [GenerateCall (report_request q rs)]"
  by (auto simp: write_report_def logged_def is_generate_def Let_def
      split: prod.splits sum.splits)

text \<open>
  C9. \<open>json_safe\<close> escapes every backslash, double quote, newline and carriage return: its
  output is a sequence of plain characters and two-character escapes, holds no newline and
  no carriage return, and reads back to the input. The prompt of the Report Stage is built
  from the query, and each outcome's query, reason and urls, only after \<open>json_safe\<close>, and
  it is the only prompt the stage sends.
\<close>

theorem report_prompt_escaped:
  "escaped (json_safe t) \<and> unescape (json_safe t) = t \<and>
   NEWLINE \<notin> set (json_safe t) \<and> CR \<notin> set (json_safe t) \<and>
   contents (report_request q rs) = spec_prompt (json_safe q) (map escaped_outcome rs) \<and>
   filter is_generate (fst (snd (write_report (logged env) q rs ([], w)))) =
     [GenerateCall (report_request q rs)]"
  using escaped_json_safe[of t] unescape_json_safe[of t] json_safe_no_newline[of t]
    report_request_spec[of q rs] write_report_logged_calls[of env q rs "[]" w]
  by simp

theorem report_prompt_escaped_witness:
  "json_safe [97, DQUOTE, BACKSLASH, NEWLINE, CR] =
     [97, BACKSLASH, DQUOTE, BACKSLASH, BACKSLASH, BACKSLASH, 110, BACKSLASH, 114] \<and>
   escaped [97, BACKSLASH, DQUOTE, BACKSLASH, BACKSLASH, BACKSLASH, 110, BACKSLASH, 114] \<and>
   unescape [97, BACKSLASH, DQUOTE, BACKSLASH, BACKSLASH, BACKSLASH, 110, BACKSLASH, 114] =
     [97, DQUOTE, BACKSLASH, NEWLINE, CR]"
proof -
  have e: "json_safe [97, DQUOTE, BACKSLASH, NEWLINE, CR] =
     [97, BACKSLASH, DQUOTE, BACKSLASH, BACKSLASH, BACKSLASH, 110, BACKSLASH, 114]"
    by (simp add: json_safe_def replace_def BACKSLASH_def DQUOTE_def NEWLINE_def CR_def)
  have a: "escaped (json_safe [97, DQUOTE, BACKSLASH, NEWLINE, CR])"
    by (rule report_prompt_escaped[THEN conjunct1])
  have b: "unescape (json_safe [97, DQUOTE, BACKSLASH, NEWLINE, CR]) =
           [97, DQUOTE, BACKSLASH, NEWLINE, CR]"
    by (rule report_prompt_escaped[THEN conjunct2, THEN conjunct1])
  show ?thesis using e a[unfolded e] b[unfolded e] by (intro conjI)
qed


lemma foldl_results_concat:
  "foldl (\<lambda>st search. foldl f st (results search)) st rs = foldl f st (all_records rs)"
  by (induction rs arbitrary: st) (simp_all add: all_records_def)

lemma refs_step_key:
  "refs_step (seen, md, c) res =
     (if ref_key res \<notin> seen \<and> snd (ref_key res) \<noteq> []
      then (insert (ref_key res) seen, md @ reference_entry c (ref_key res), Suc c)
      else (seen, md, c))"
  by (simp add: refs_step_def ref_key_def reference_entry_def Let_def)

lemma foldl_refs_step:
  "foldl refs_step (seen, md, c) recs =
     (seen \<union> set (fresh_keys seen (map ref_key recs)),
      md @ concat (map (\<lambda>(i, k). reference_entry i k)
                    (enumerate c (fresh_keys seen (map ref_key recs)))),
      c + length (fresh_keys seen (map ref_key recs)))"
proof (induction recs arbitrary: seen md c)
  case Nil
  then show ?case by simp
next
  case (Cons r recs)
  show ?case
  proof (cases "ref_key r \<notin> seen \<and> snd (ref_key r) \<noteq> []")
    case True
    then show ?thesis
      using Cons.IH[of "insert (ref_key r) seen" "md @ reference_entry c (ref_key r)" "Suc c"]
      by (simp add: refs_step_key)
  next
    case False
    then show ?thesis
      using Cons.IH[of seen md c] by (auto simp: refs_step_key)
  qed
qed

lemma first_occurrences_filter:
  "first_occurrences (filter P xs) = filter P (first_occurrences xs)"
proof (induction xs)
  case Nil
  then show ?case by simp
next
  case (Cons x xs)
  show ?case
  proof (cases "P x")
    case True
    with Cons show ?thesis by (simp add: conj_commute)
  next
    case False
    have "filter P (filter (\<lambda>y. y \<noteq> x) (first_occurrences xs)) = filter P (first_occurrences xs)"
      unfolding filter_filter using False by (intro filter_cong) auto
    with False Cons show ?thesis by simp
  qed
qed

lemma fresh_keys_first_occurrences:
  "fresh_keys seen ks = first_occurrences (filter (\<lambda>k. k \<notin> seen \<and> snd k \<noteq> []) ks)"
proof (induction ks arbitrary: seen)
  case Nil
  then show ?case by simp
next
  case (Cons k ks)
  show ?case
  proof (cases "k \<notin> seen \<and> snd k \<noteq> []")
    case True
    have "filter (\<lambda>y. y \<noteq> k) (first_occurrences (filter (\<lambda>x. x \<notin> seen \<and> snd x \<noteq> []) ks)) =
          first_occurrences (filter (\<lambda>x. x \<notin> insert k seen \<and> snd x \<noteq> []) ks)"
      unfolding first_occurrences_filter[symmetric] filter_filter
      by (rule arg_cong[where f=first_occurrences], rule filter_cong) auto
    with True Cons.IH[of "insert k seen"] show ?thesis by simp
  next
    case False
    with Cons.IH[of seen] show ?thesis by auto
  qed
qed

lemma build_references_spec: "build_references rs = spec_references (spec_cited rs)"
proof -
  have "fresh_keys {} (map ref_key (all_records rs)) = spec_cited rs"
    by (simp add: fresh_keys_first_occurrences spec_cited_def)
  then show ?thesis
    by (simp add: build_references_def foldl_results_concat foldl_refs_step spec_references_def
        enumerate_eq_zip)
qed

lemma set_first_occurrences: "set (first_occurrences xs) = set xs"
  by (induction xs) auto

lemma distinct_first_occurrences: "distinct (first_occurrences xs)"
  by (induction xs) (auto simp: set_first_occurrences)

lemma distinct_spec_cited: "distinct (spec_cited rs)"
  by (simp add: spec_cited_def distinct_first_occurrences)

lemma set_spec_cited:
  "set (spec_cited rs) = {k \<in> ref_key ` set (all_records rs). snd k \<noteq> []}"
  by (auto simp: spec_cited_def set_first_occurrences)

lemma spec_cited_swap:
  assumes "i < length (all_records rs)" "j < length (all_records rs)"
    and "ref_key (all_records rs ! i) = ref_key (all_records rs ! j)"
    and "all_records rs' = (all_records rs)[i := all_records rs ! j, j := all_records rs ! i]"
  shows "spec_cited rs' = spec_cited rs"
proof -
  have "map ref_key (all_records rs') = map ref_key (all_records rs)"
    using assms by (auto intro!: nth_equalityI simp: nth_list_update)
  then show ?thesis by (simp add: spec_cited_def)
qed

lemma first_occurrences_snoc:
  "first_occurrences (xs @ [x]) =
     (if x \<in> set xs then first_occurrences xs else first_occurrences xs @ [x])"
  by (induction xs) auto

lemma spec_cited_snoc:
  "results outcome = [res] \<Longrightarrow>
   spec_cited (rs @ [outcome]) =
     (if snd (ref_key res) = [] \<or> ref_key res \<in> set (spec_cited rs) then spec_cited rs
      else spec_cited rs @ [ref_key res])"
  by (auto simp: spec_cited_def all_records_def first_occurrences_snoc set_first_occurrences)

lemma count_list_distinct: "distinct xs \<Longrightarrow> count_list xs x = (if x \<in> set xs then 1 else 0)"
  by (induction xs) auto

text \<open>
  C5. The reference list has one entry for each cited key (title, url), and the cited keys
  are the keys with a non-empty url, each once, in the order of their first occurrence: a
  record appended at the end adds its key unless the url is empty or the key is cited
  already. Exchanging two records that carry the same key changes neither the cited keys
  nor the output, and that key has exactly one entry when its url is not empty (none when
  it is).
\<close>

theorem build_references_dedup:
  "build_references rs = spec_references (spec_cited rs) \<and>
   distinct (spec_cited rs) \<and>
   set (spec_cited rs) = {k \<in> ref_key ` set (all_records rs). snd k \<noteq> []} \<and>
   (results outcome = [res] \<longrightarrow>
      spec_cited (rs @ [outcome]) =
        (if snd (ref_key res) = [] \<or> ref_key res \<in> set (spec_cited rs) then spec_cited rs
         else spec_cited rs @ [ref_key res])) \<and>
   (i < length (all_records rs) \<and> j < length (all_records rs) \<and>
    ref_key (all_records rs ! i) = ref_key (all_records rs ! j) \<and>
    all_records rs' = (all_records rs)[i := all_records rs ! j, j := all_records rs ! i] \<longrightarrow>
      spec_cited rs' = spec_cited rs \<and> build_references rs' = build_references rs \<and>
      count_list (spec_cited rs) (ref_key (all_records rs ! i)) =
        (if snd (ref_key (all_records rs ! i)) = [] then 0 else 1))"
proof (intro conjI impI)
  show "build_references rs = spec_references (spec_cited rs)" by (rule build_references_spec)
  show "distinct (spec_cited rs)" by (rule distinct_spec_cited)
  show "set (spec_cited rs) = {k \<in> ref_key ` set (all_records rs). snd k \<noteq> []}"
    by (rule set_spec_cited)
next
  assume "results outcome = [res]"
  then show "spec_cited (rs @ [outcome]) =
        (if snd (ref_key res) = [] \<or> ref_key res \<in> set (spec_cited rs) then spec_cited rs
         else spec_cited rs @ [ref_key res])"
    by (rule spec_cited_snoc)
next
  assume a: "i < length (all_records rs) \<and> j < length (all_records rs) \<and>
    ref_key (all_records rs ! i) = ref_key (all_records rs ! j) \<and>
    all_records rs' = (all_records rs)[i := all_records rs ! j, j := all_records rs ! i]"
  then show c: "spec_cited rs' = spec_cited rs" using spec_cited_swap by blast
  then show "build_references rs' = build_references rs" by (simp add: build_references_spec)
  from a have "ref_key (all_records rs ! i) \<in> ref_key ` set (all_records rs)" by simp
  then show "count_list (spec_cited rs) (ref_key (all_records rs ! i)) =
        (if snd (ref_key (all_records rs ! i)) = [] then 0 else 1)"
    by (simp add: count_list_distinct distinct_spec_cited set_spec_cited)
qed

lemma demo_all_records:
  "all_records demo_outcomes =
     [demo_record (ascii ''A'') (ascii ''http://a'') (ascii ''first''),
      demo_record (ascii ''B'') (ascii ''http://b'') [],
      demo_record (ascii ''C'') [] (ascii ''no url''),
      demo_record (ascii ''A'') (ascii ''http://a'') (ascii ''second'')]"
  "all_records demo_outcomes_swapped =
     [demo_record (ascii ''A'') (ascii ''http://a'') (ascii ''second''),
      demo_record (ascii ''B'') (ascii ''http://b'') [],
      demo_record (ascii ''C'') [] (ascii ''no url''),
      demo_record (ascii ''A'') (ascii ''http://a'') (ascii ''first'')]"
  by (simp_all add: all_records_def demo_outcomes_def demo_outcomes_swapped_def demo_outcome_def)

lemma ref_key_demo_record: "ref_key (demo_record t u s) = (t, u)"
  by (simp add: ref_key_def demo_record_def dict_get_def ascii_def)

lemma demo_build_references:
  "build_references demo_outcomes =
     ascii ''## References'' @ [NEWLINE, NEWLINE] @
     ascii ''1. [A](http://a)'' @ [NEWLINE] @ ascii ''2. [B](http://b)'' @ [NEWLINE]"
proof -
  have "spec_cited demo_outcomes = [(ascii ''A'', ascii ''http://a''), (ascii ''B'', ascii ''http://b'')]"
    by (simp add: spec_cited_def demo_all_records ref_key_demo_record) (simp add: ascii_def)
  then show ?thesis
    by (simp add: build_references_spec spec_references_def reference_entry_def
        upt_rec[of 1] upt_rec[of 2] upt_rec[of 3] str_of_nat.simps) (simp add: ascii_def)
qed

theorem build_references_dedup_witness:
  "build_references demo_outcomes =
     ascii ''## References'' @ [NEWLINE, NEWLINE] @
     ascii ''1. [A](http://a)'' @ [NEWLINE] @ ascii ''2. [B](http://b)'' @ [NEWLINE] \<and>
   build_references demo_outcomes_swapped = build_references demo_outcomes \<and>
   count_list (spec_cited demo_outcomes) (ascii ''A'', ascii ''http://a'') = 1"
proof -
  have h: "0 < length (all_records demo_outcomes) \<and> 3 < length (all_records demo_outcomes) \<and>
    ref_key (all_records demo_outcomes ! 0) = ref_key (all_records demo_outcomes ! 3) \<and>
    all_records demo_outcomes_swapped =
      (all_records demo_outcomes)[0 := all_records demo_outcomes ! 3, 3 := all_records demo_outcomes ! 0]"
    by (simp add: demo_all_records ref_key_demo_record)
  have k: "ref_key (all_records demo_outcomes ! 0) = (ascii ''A'', ascii ''http://a'')"
    by (simp add: demo_all_records ref_key_demo_record)
  have n: "snd (ascii ''A'', ascii ''http://a'') \<noteq> []" by (simp add: ascii_def)
  from build_references_dedup[of demo_outcomes _ _ 0 3 demo_outcomes_swapped] h
  have "build_references demo_outcomes_swapped = build_references demo_outcomes \<and>
        count_list (spec_cited demo_outcomes) (ref_key (all_records demo_outcomes ! 0)) =
          (if snd (ref_key (all_records demo_outcomes ! 0)) = [] then 0 else 1)"
    by blast
  with k n demo_build_references show ?thesis by simp
qed

text \<open>
  C10. The output is the heading "## References" and a blank line, followed by one entry
  for each cited key, numbered 1, 2, ..., k in order, where k is the number of cited keys,
  whatever was skipped. When every record has an empty url, and for no outcomes at all,
  the output is the heading alone.
\<close>

theorem build_references_numbering:
  "build_references rs =
     ascii ''## References'' @ [NEWLINE, NEWLINE] @
     concat (map (\<lambda>(i, k). str_of_nat i @ ascii ''. ['' @ fst k @ ascii '']('' @ snd k @
                            ascii '')'' @ [NEWLINE])
               (zip [1 ..< Suc (length (spec_cited rs))] (spec_cited rs))) \<and>
   length (spec_cited rs) \<le> length (all_records rs) \<and>
   ((\<forall>res \<in> set (all_records rs). dict_get res (ascii ''url'') [] = []) \<longrightarrow>
      build_references rs = ascii ''## References'' @ [NEWLINE, NEWLINE]) \<and>
   build_references [] = ascii ''## References'' @ [NEWLINE, NEWLINE]"
proof (intro conjI impI)
  show "build_references rs =
     ascii ''## References'' @ [NEWLINE, NEWLINE] @
     concat (map (\<lambda>(i, k). str_of_nat i @ ascii ''. ['' @ fst k @ ascii '']('' @ snd k @
                            ascii '')'' @ [NEWLINE])
               (zip [1 ..< Suc (length (spec_cited rs))] (spec_cited rs)))"
    by (simp add: build_references_spec spec_references_def reference_entry_def)
  have fo: "length (first_occurrences xs) \<le> length xs" for xs :: "(ustr \<times> ustr) list"
    by (induction xs) (auto intro: le_trans[OF length_filter_le] le_SucI)
  have "length (spec_cited rs) \<le> length (filter (\<lambda>k. snd k \<noteq> []) (map ref_key (all_records rs)))"
    unfolding spec_cited_def by (rule fo)
  also have "\<dots> \<le> length (map ref_key (all_records rs))"
    by (rule length_filter_le)
  also have "\<dots> = length (all_records rs)" by simp
  finally show "length (spec_cited rs) \<le> length (all_records rs)" .
  show "build_references [] = ascii ''## References'' @ [NEWLINE, NEWLINE]"
    by (simp add: build_references_def)
next
  assume "\<forall>res \<in> set (all_records rs). dict_get res (ascii ''url'') [] = []"
  then have "filter (\<lambda>k. snd k \<noteq> []) (map ref_key (all_records rs)) = []"
    by (auto simp: filter_empty_conv ref_key_def)
  then have "spec_cited rs = []" by (simp add: spec_cited_def)
  then show "build_references rs = ascii ''## References'' @ [NEWLINE, NEWLINE]"
    by (simp add: build_references_spec spec_references_def)
qed

theorem build_references_numbering_witness:
  "list_all (\<lambda>res. dict_get res (ascii ''url'') [] = []) (all_records demo_uncitable) \<and>
   length (all_records demo_uncitable) = 2 \<and>
   build_references demo_uncitable = ascii ''## References'' @ [NEWLINE, NEWLINE]"
proof -
  have a: "all_records demo_uncitable = [demo_record (ascii ''A'') [] [], [ascii ''title'' \<mapsto> ascii ''D'']]"
    by (simp add: all_records_def demo_uncitable_def demo_outcome_def)
  have h: "\<forall>res \<in> set (all_records demo_uncitable). dict_get res (ascii ''url'') [] = []"
    unfolding a by (simp add: demo_record_def dict_get_def ascii_def)
  have "build_references demo_uncitable = ascii ''## References'' @ [NEWLINE, NEWLINE]"
    using build_references_numbering[of demo_uncitable, THEN conjunct2, THEN conjunct2, THEN conjunct1] h
    by (rule mp)
  with h a show ?thesis by (simp add: list_all_iff)
qed


lemma SERPAPI_KEY_nonempty: "SERPAPI_KEY \<noteq> []"
  by (simp add: SERPAPI_KEY_def ascii_def)

lemma search_web_eq:
  "search_web env q why w =
     (case get_dict env (search_request q) w of
        (Inl e, w') \<Rightarrow> (Inl e, w')
      | (Inr data, w') \<Rightarrow>
          (Inr \<lparr>out_query = q, out_reason = why, results = map normalize_result (organic data),
                 summary = ascii ''Top '' @ str_of_nat (length (organic data)) @
                           ascii '' search results for '' @ [39] @ q @ [39]\<rparr>, w'))"
  by (simp add: search_web_def SERPAPI_KEY_nonempty organic_def Let_def
      split: prod.splits sum.splits)

lemma normalize_result_fields:
  "normalize_result r (ascii ''title'') =
     Some (case r (ascii ''title'') of None \<Rightarrow> ascii ''No title'' | Some t \<Rightarrow> t)"
  "normalize_result r (ascii ''url'') = Some (case r (ascii ''link'') of None \<Rightarrow> [] | Some u \<Rightarrow> u)"
  "normalize_result r (ascii ''snippet'') =
     Some (case r (ascii ''snippet'') of None \<Rightarrow> [] | Some s \<Rightarrow> s)"
  by (simp_all add: normalize_result_def dict_get_def Let_def ascii_def split: option.splits)

lemma normalize_result_dom:
  "dom (normalize_result r) = {ascii ''title'', ascii ''url'', ascii ''snippet''}"
  by (auto simp: normalize_result_def Let_def)

lemma search_web_logged:
  "search_web (logged env) q why (evs, w) =
     (fst (search_web env q why w),
      (evs @ [SearchCall (search_request q)], snd (search_web env q why w)))"
  by (simp add: search_web_eq logged_def split: prod.splits sum.splits)

text \<open>
  C7. \<open>search_web\<close> calls the provider once, with the query and \<open>num = 5\<close>, and turns
  each hit into a record with the keys title, url and snippet: an absent title becomes
  "No title", an absent snippet and an absent link become the empty string, and a value
  that is present is kept.
\<close>

theorem search_web_normalizes:
  "search_web env q why w =
     (case get_dict env (search_request q) w of
        (Inl e, w') \<Rightarrow> (Inl e, w')
      | (Inr data, w') \<Rightarrow>
          (Inr \<lparr>out_query = q, out_reason = why, results = map normalize_result (organic data),
                 summary = ascii ''Top '' @ str_of_nat (length (organic data)) @
                           ascii '' search results for '' @ [39] @ q @ [39]\<rparr>, w')) \<and>
   param_q (search_request q) = q \<and> param_num (search_request q) = 5 \<and>
   fst (snd (search_web (logged env) q why ([], w))) = [SearchCall (search_request q)] \<and>
   dom (normalize_result r) = {ascii ''title'', ascii ''url'', ascii ''snippet''} \<and>
   (r (ascii ''title'') = None \<longrightarrow> normalize_result r (ascii ''title'') = Some (ascii ''No title'')) \<and>
   (r (ascii ''snippet'') = None \<longrightarrow> normalize_result r (ascii ''snippet'') = Some []) \<and>
   (r (ascii ''link'') = None \<longrightarrow> normalize_result r (ascii ''url'') = Some []) \<and>
   (r (ascii ''title'') = Some t \<longrightarrow> normalize_result r (ascii ''title'') = Some t) \<and>
   (r (ascii ''snippet'') = Some s \<longrightarrow> normalize_result r (ascii ''snippet'') = Some s) \<and>
   (r (ascii ''link'') = Some u \<longrightarrow> normalize_result r (ascii ''url'') = Some u)"
proof (intro conjI impI)
  show "search_web env q why w =
     (case get_dict env (search_request q) w of
        (Inl e, w') \<Rightarrow> (Inl e, w')
      | (Inr data, w') \<Rightarrow>
          (Inr \<lparr>out_query = q, out_reason = why, results = map normalize_result (organic data),
                 summary = ascii ''Top '' @ str_of_nat (length (organic data)) @
                           ascii '' search results for '' @ [39] @ q @ [39]\<rparr>, w'))"
    by (rule search_web_eq)
  show "param_q (search_request q) = q" "param_num (search_request q) = 5"
    by (simp_all add: search_request_def)
  show "fst (snd (search_web (logged env) q why ([], w))) = [SearchCall (search_request q)]"
    by (simp add: search_web_logged)
  show "dom (normalize_result r) = {ascii ''title'', ascii ''url'', ascii ''snippet''}"
    by (rule normalize_result_dom)
qed (simp_all add: normalize_result_fields)

theorem search_web_normalizes_witness:
  "search_web demo_env (ascii ''cats'') (ascii ''why'') () =
     (Inr \<lparr>out_query = ascii ''cats'', out_reason = ascii ''why'',
            results =
              [[ascii ''title'' \<mapsto> ascii ''T'', ascii ''url'' \<mapsto> ascii ''http://t'',
                ascii ''snippet'' \<mapsto> ascii ''S''],
               [ascii ''title'' \<mapsto> ascii ''No title'', ascii ''url'' \<mapsto> [],
                ascii ''snippet'' \<mapsto> []]],
            summary = ascii ''Top 2 search results for '' @ [39] @ ascii ''cats'' @ [39]\<rparr>, ()) \<and>
   normalize_result [ascii ''position'' \<mapsto> ascii ''2''] (ascii ''title'') = Some (ascii ''No title'') \<and>
   normalize_result [ascii ''position'' \<mapsto> ascii ''2''] (ascii ''url'') = Some [] \<and>
   normalize_result [ascii ''position'' \<mapsto> ascii ''2''] (ascii ''snippet'') = Some []"
proof -
  have g: "get_dict demo_env (search_request (ascii ''cats'')) () =
     (Inr \<lparr>organic_results = Some
             [[ascii ''title'' \<mapsto> ascii ''T'', ascii ''link'' \<mapsto> ascii ''http://t'',
               ascii ''snippet'' \<mapsto> ascii ''S''],
              [ascii ''position'' \<mapsto> ascii ''2'']]\<rparr>, ())"
    by (simp add: demo_env_def stateless_def demo_serp_def search_request_def ascii_def)
  have n1: "normalize_result [ascii ''title'' \<mapsto> ascii ''T'', ascii ''link'' \<mapsto> ascii ''http://t'',
               ascii ''snippet'' \<mapsto> ascii ''S''] =
            [ascii ''title'' \<mapsto> ascii ''T'', ascii ''url'' \<mapsto> ascii ''http://t'',
                ascii ''snippet'' \<mapsto> ascii ''S'']"
    by (simp add: normalize_result_def dict_get_def Let_def ascii_def)
  have n2: "normalize_result [ascii ''position'' \<mapsto> ascii ''2''] =
            [ascii ''title'' \<mapsto> ascii ''No title'', ascii ''url'' \<mapsto> [], ascii ''snippet'' \<mapsto> []]"
    by (simp add: normalize_result_def dict_get_def Let_def ascii_def)
  have a: "[ascii ''position'' \<mapsto> ascii ''2''] (ascii ''title'') = None"
          "[ascii ''position'' \<mapsto> ascii ''2''] (ascii ''link'') = None"
          "[ascii ''position'' \<mapsto> ascii ''2''] (ascii ''snippet'') = None"
    by (simp_all add: ascii_def)
  note t = search_web_normalizes[of demo_env "ascii ''cats''" "ascii ''why''" "()"
      "[ascii ''position'' \<mapsto> ascii ''2'']"]
  have r1: "search_web demo_env (ascii ''cats'') (ascii ''why'') () =
     (Inr \<lparr>out_query = ascii ''cats'', out_reason = ascii ''why'',
            results =
              [[ascii ''title'' \<mapsto> ascii ''T'', ascii ''url'' \<mapsto> ascii ''http://t'',
                ascii ''snippet'' \<mapsto> ascii ''S''],
               [ascii ''title'' \<mapsto> ascii ''No title'', ascii ''url'' \<mapsto> [],
                ascii ''snippet'' \<mapsto> []]],
            summary = ascii ''Top 2 search results for '' @ [39] @ ascii ''cats'' @ [39]\<rparr>, ())"
    using t[THEN conjunct1] g n1 n2
    by (simp add: organic_def str_of_nat.simps) (simp add: ascii_def)
  from t a have "normalize_result [ascii ''position'' \<mapsto> ascii ''2''] (ascii ''title'') = Some (ascii ''No title'') \<and>
   normalize_result [ascii ''position'' \<mapsto> ascii ''2''] (ascii ''url'') = Some [] \<and>
   normalize_result [ascii ''position'' \<mapsto> ascii ''2''] (ascii ''snippet'') = Some []"
    by blast
  with r1 show ?thesis by blast
qed

lemma search_loop_fields:
  "search_loop env n i items acc w = (Inr outs, w') \<Longrightarrow>
   map out_query outs = map out_query acc @ map query items \<and>
   map out_reason outs = map out_reason acc @ map reason items"
proof (induction items arbitrary: i acc w)
  case Nil
  then show ?case by simp
next
  case (Cons item items)
  let ?w1 = "progress env (0.2 + (0.5 * of_nat i / of_nat n))
                 ([287, 376, 8221] @ ascii '' Searching ('' @ str_of_nat i @ ascii ''/'' @
                  str_of_nat n @ ascii ''): '' @ take 50 (query item) @ ascii ''...'') w"
  from Cons.prems obtain result w2 where
    s: "search_web env (query item) (reason item) ?w1 = (Inr result, w2)"
    and l: "search_loop env n (Suc i) items (acc @ [result]) w2 = (Inr outs, w')"
    by (auto simp: Let_def split: prod.splits sum.splits)
  from s have "out_query result = query item" "out_reason result = reason item"
    by (auto simp: search_web_eq split: prod.splits sum.splits)
  with Cons.IH[OF l] show ?case by simp
qed

lemma search_loop_total:
  "(\<forall>item \<in> set items. \<forall>v. \<exists>data v'. get_dict env (search_request (query item)) v = (Inr data, v')) \<Longrightarrow>
   \<exists>outs w'. search_loop env n i items acc w = (Inr outs, w')"
proof (induction items arbitrary: i acc w)
  case Nil
  then show ?case by simp
next
  case (Cons item items)
  let ?w1 = "progress env (0.2 + (0.5 * of_nat i / of_nat n))
                 ([287, 376, 8221] @ ascii '' Searching ('' @ str_of_nat i @ ascii ''/'' @
                  str_of_nat n @ ascii ''): '' @ take 50 (query item) @ ascii ''...'') w"
  from Cons.prems obtain data v' where
    g: "get_dict env (search_request (query item)) ?w1 = (Inr data, v')"
    by (metis list.set_intros(1))
  then obtain result where s: "search_web env (query item) (reason item) ?w1 = (Inr result, v')"
    by (simp add: search_web_eq)
  from Cons.prems have "\<forall>item \<in> set items. \<forall>v. \<exists>data v'.
      get_dict env (search_request (query item)) v = (Inr data, v')" by simp
  from Cons.IH[OF this, of "Suc i" "acc @ [result]" v'] s show ?case
    by (simp add: Let_def)
qed

lemma search_loop_logged:
  "\<exists>evs' k. search_loop (logged env) n i items acc (evs, w) =
       (fst (search_loop env n i items acc w), (evs', snd (search_loop env n i items acc w))) \<and>
     k \<le> length items \<and>
     filter is_search evs' =
       filter is_search evs @ map (\<lambda>item. SearchCall (search_request (query item))) (take k items) \<and>
     (\<forall>outs. fst (search_loop env n i items acc w) = Inr outs \<longrightarrow> k = length items)"
proof (induction items arbitrary: i acc w evs)
  case Nil
  then show ?case by simp
next
  case (Cons item items)
  let ?d = "[287, 376, 8221] @ ascii '' Searching ('' @ str_of_nat i @ ascii ''/'' @
                  str_of_nat n @ ascii ''): '' @ take 50 (query item) @ ascii ''...''"
  let ?f = "0.2 + (0.5 * of_nat i / of_nat n) :: rat"
  let ?w1 = "progress env ?f ?d w"
  let ?evs1 = "evs @ [ProgressEvent ?f ?d]"
  have p: "progress (logged env) ?f ?d (evs, w) = (?evs1, ?w1)"
    by (simp add: logged_def)
  have sw: "search_web (logged env) (query item) (reason item) (?evs1, ?w1) =
     (fst (search_web env (query item) (reason item) ?w1),
      (?evs1 @ [SearchCall (search_request (query item))],
       snd (search_web env (query item) (reason item) ?w1)))"
    by (rule search_web_logged)
  show ?case
  proof (cases "search_web env (query item) (reason item) ?w1")
    case (Pair r w2)
    show ?thesis
    proof (cases r)
      case (Inl e)
      have "search_loop (logged env) n i (item # items) acc (evs, w) =
            (Inl e, (?evs1 @ [SearchCall (search_request (query item))], w2))"
        using Pair Inl sw p by (simp add: Let_def)
      moreover have "search_loop env n i (item # items) acc w = (Inl e, w2)"
        using Pair Inl by (simp add: Let_def)
      ultimately show ?thesis
        by (intro exI[of _ "?evs1 @ [SearchCall (search_request (query item))]"] exI[of _ 1])
           (simp add: is_search_def)
    next
      case (Inr result)
      from Cons.IH[of "Suc i" "acc @ [result]" "?evs1 @ [SearchCall (search_request (query item))]" w2]
      obtain evs' k where
        ih: "search_loop (logged env) n (Suc i) items (acc @ [result])
               (?evs1 @ [SearchCall (search_request (query item))], w2) =
             (fst (search_loop env n (Suc i) items (acc @ [result]) w2),
              (evs', snd (search_loop env n (Suc i) items (acc @ [result]) w2)))"
          "k \<le> length items"
          "filter is_search evs' =
             filter is_search (?evs1 @ [SearchCall (search_request (query item))]) @
             map (\<lambda>item. SearchCall (search_request (query item))) (take k items)"
          "\<forall>outs. fst (search_loop env n (Suc i) items (acc @ [result]) w2) = Inr outs \<longrightarrow>
             k = length items"
        by blast
      have a: "search_loop (logged env) n i (item # items) acc (evs, w) =
            search_loop (logged env) n (Suc i) items (acc @ [result])
               (?evs1 @ [SearchCall (search_request (query item))], w2)"
        using Pair Inr sw p by (simp add: Let_def)
      have b: "search_loop env n i (item # items) acc w =
            search_loop env n (Suc i) items (acc @ [result]) w2"
        using Pair Inr by (simp add: Let_def)
      have f: "filter is_search evs' =
             filter is_search evs @
             map (\<lambda>item. SearchCall (search_request (query item))) (take (Suc k) (item # items))"
        using ih(3) by (simp add: is_search_def)
      show ?thesis
        unfolding a b using ih(1,2,4) f
        by (intro exI[of _ evs'] exI[of _ "Suc k"]) simp
    qed
  qed
qed

lemma perform_searches_fields:
  assumes "perform_searches env plan w = (Inr outs, w')"
  shows "map out_query outs = map query (searches plan)"
    and "map out_reason outs = map reason (searches plan)"
proof -
  from assms obtain w2 where
    "search_loop env (length (searches plan)) 1 (searches plan) [] w = (Inr outs, w2)"
    by (auto simp: perform_searches_def split: prod.splits sum.splits)
  from search_loop_fields[OF this]
  show "map out_query outs = map query (searches plan)"
    and "map out_reason outs = map reason (searches plan)" by simp_all
qed

lemma perform_searches_total:
  assumes "\<forall>item \<in> set (searches plan). \<forall>v. \<exists>data v'.
             get_dict env (search_request (query item)) v = (Inr data, v')"
  shows "\<exists>outs w'. perform_searches env plan w = (Inr outs, w')"
proof -
  from search_loop_total[OF assms, of "length (searches plan)" 1 "[]" w]
  obtain outs w2 where
    "search_loop env (length (searches plan)) 1 (searches plan) [] w = (Inr outs, w2)"
    by blast
  then show ?thesis by (simp add: perform_searches_def)
qed

lemma perform_searches_logged:
  "fst (perform_searches (logged env) plan (evs, w)) = fst (perform_searches env plan w) \<and>
   snd (snd (perform_searches (logged env) plan (evs, w))) = snd (perform_searches env plan w) \<and>
   (\<exists>k \<le> length (searches plan).
      filter is_search (fst (snd (perform_searches (logged env) plan (evs, w)))) =
        filter is_search evs @
        map (\<lambda>item. SearchCall (search_request (query item))) (take k (searches plan)) \<and>
      (\<forall>outs. fst (perform_searches env plan w) = Inr outs \<longrightarrow> k = length (searches plan)))"
proof -
  let ?n = "length (searches plan)"
  from search_loop_logged[of env ?n 1 "searches plan" "[]" evs w]
  obtain evs' k where
    l: "search_loop (logged env) ?n 1 (searches plan) [] (evs, w) =
         (fst (search_loop env ?n 1 (searches plan) [] w),
          (evs', snd (search_loop env ?n 1 (searches plan) [] w)))"
    and k: "k \<le> ?n"
    and f: "filter is_search evs' =
       filter is_search evs @ map (\<lambda>item. SearchCall (search_request (query item))) (take k (searches plan))"
    and s: "\<forall>outs. fst (search_loop env ?n 1 (searches plan) [] w) = Inr outs \<longrightarrow> k = ?n"
    by blast
  obtain r w2 where rw: "search_loop env ?n 1 (searches plan) [] w = (r, w2)" by fastforce
  show ?thesis
  proof (cases r)
    case (Inl e)
    with l rw k f s show ?thesis
      by (auto simp: perform_searches_def)
  next
    case (Inr outs)
    with l rw k f s show ?thesis
      by (auto simp: perform_searches_def logged_def is_search_def)
  qed
qed

text \<open>
  C8. When the Search Stage returns, its outcomes are as many as the items of the plan
  and the i-th outcome carries the query and the reason of the i-th item; it does return
  when the provider answers every query of the plan. The provider is called for the items
  in the order of the plan, one call after the other, each in the state that the call
  before it left: the calls recorded are those for the first k items, with k the length
  of the plan when the stage returns.
\<close>

theorem perform_searches_order:
  "(perform_searches env plan w = (Inr outs, w') \<longrightarrow>
      length outs = length (searches plan) \<and>
      (\<forall>i < length outs. out_query (outs ! i) = query (searches plan ! i) \<and>
                          out_reason (outs ! i) = reason (searches plan ! i))) \<and>
   ((\<forall>item \<in> set (searches plan). \<forall>v. \<exists>data v'.
        get_dict env (search_request (query item)) v = (Inr data, v')) \<longrightarrow>
      (\<exists>outs w'. perform_searches env plan w = (Inr outs, w'))) \<and>
   fst (perform_searches (logged env) plan ([], w)) = fst (perform_searches env plan w) \<and>
   (\<exists>k \<le> length (searches plan).
      filter is_search (fst (snd (perform_searches (logged env) plan ([], w)))) =
        map (\<lambda>item. SearchCall (search_request (query item))) (take k (searches plan)) \<and>
      (\<forall>outs. fst (perform_searches env plan w) = Inr outs \<longrightarrow> k = length (searches plan)))"
proof (intro conjI impI)
  assume a: "perform_searches env plan w = (Inr outs, w')"
  note f = perform_searches_fields[OF a]
  from f(1) show len: "length outs = length (searches plan)" by (rule map_eq_imp_length_eq)
  show "\<forall>i < length outs. out_query (outs ! i) = query (searches plan ! i) \<and>
                          out_reason (outs ! i) = reason (searches plan ! i)"
  proof (intro allI impI)
    fix i assume i: "i < length outs"
    from f(1) i len have "out_query (outs ! i) = query (searches plan ! i)"
      by (metis nth_map)
    moreover from f(2) i len have "out_reason (outs ! i) = reason (searches plan ! i)"
      by (metis nth_map)
    ultimately show "out_query (outs ! i) = query (searches plan ! i) \<and>
                          out_reason (outs ! i) = reason (searches plan ! i)" by simp
  qed
next
  assume "\<forall>item \<in> set (searches plan). \<forall>v. \<exists>data v'.
        get_dict env (search_request (query item)) v = (Inr data, v')"
  then show "\<exists>outs w'. perform_searches env plan w = (Inr outs, w')"
    by (rule perform_searches_total)
next
  show "fst (perform_searches (logged env) plan ([], w)) = fst (perform_searches env plan w)"
    using perform_searches_logged[of env plan "[]" w] by blast
  show "\<exists>k \<le> length (searches plan).
      filter is_search (fst (snd (perform_searches (logged env) plan ([], w)))) =
        map (\<lambda>item. SearchCall (search_request (query item))) (take k (searches plan)) \<and>
      (\<forall>outs. fst (perform_searches env plan w) = Inr outs \<longrightarrow> k = length (searches plan))"
    using perform_searches_logged[of env plan "[]" w] by simp
qed

lemma demo_search_web:
  "search_web demo_env (ascii ''cats'') why w = 
     (Inr \<lparr>out_query = ascii ''cats'', out_reason = why,
            results = map normalize_result (the (organic_results (projr (demo_serp (ascii ''cats''))))),
            summary = ascii ''Top 2 search results for '' @ [39] @ ascii ''cats'' @ [39]\<rparr>, ())"
  "search_web demo_env (ascii ''nothing'') why w = 
     (Inr \<lparr>out_query = ascii ''nothing'', out_reason = why, results = [],
            summary = ascii ''Top 0 search results for '' @ [39] @ ascii ''nothing'' @ [39]\<rparr>, ())"
  "search_web demo_env (ascii ''down'') why w = (Inl (Raised (ascii ''Invalid API key'')), ())"
  by (simp_all add: search_web_eq demo_env_def stateless_def demo_serp_def search_request_def
      organic_def str_of_nat.simps)
     (simp_all add: ascii_def)

theorem perform_searches_order_witness:
  "map out_query (projr (fst (perform_searches demo_env demo_plan ()))) = [ascii ''cats'', ascii ''nothing''] \<and>
   map out_reason (projr (fst (perform_searches demo_env demo_plan ()))) = [ascii ''pets'', ascii ''control''] \<and>
   fst (perform_searches demo_env demo_plan_failing ()) = Inl (Raised (ascii ''Invalid API key'')) \<and>
   fst (perform_searches (logged demo_env) demo_plan_failing ([], ())) =
     Inl (Raised (ascii ''Invalid API key'')) \<and>
   filter is_search (fst (snd (perform_searches (logged demo_env) demo_plan_failing ([], ())))) =
     [SearchCall (search_request (ascii ''cats'')), SearchCall (search_request (ascii ''down''))]"
proof -
  have g: "filter is_search (fst (snd (perform_searches (logged demo_env) demo_plan_failing ([], ())))) =
     [SearchCall (search_request (ascii ''cats'')), SearchCall (search_request (ascii ''down''))]"
    by (simp add: perform_searches_def demo_plan_failing_def search_web_logged demo_search_web
        Let_def is_search_def logged_def[where env=demo_env, THEN arg_cong[where f=progress]])
  obtain outs where p: "perform_searches demo_env demo_plan () = (Inr outs, ())"
    by (simp add: perform_searches_def demo_plan_def demo_search_web Let_def)
  from perform_searches_order[of demo_env demo_plan "()" outs "()", THEN conjunct1] p
  have "length outs = 2 \<and> out_query (outs ! 0) = ascii ''cats'' \<and> out_query (outs ! 1) = ascii ''nothing''
        \<and> out_reason (outs ! 0) = ascii ''pets'' \<and> out_reason (outs ! 1) = ascii ''control''"
    by (simp add: demo_plan_def)
  then have q: "map out_query outs = [ascii ''cats'', ascii ''nothing''] \<and>
                map out_reason outs = [ascii ''pets'', ascii ''control'']"
    by (cases outs; cases "tl outs") auto
  have f: "fst (perform_searches demo_env demo_plan_failing ()) = Inl (Raised (ascii ''Invalid API key''))"
    by (simp add: perform_searches_def demo_plan_failing_def demo_search_web Let_def)
  from perform_searches_order[of demo_env demo_plan_failing "()", THEN conjunct2, THEN conjunct2, THEN conjunct1] f
  have "fst (perform_searches (logged demo_env) demo_plan_failing ([], ())) =
     Inl (Raised (ascii ''Invalid API key''))" by simp
  with p q f g show ?thesis by simp
qed


lemma validate_str_Inr: "validate_str loc v = Inr s \<longleftrightarrow> v = JStr s"
  by (cases v) simp_all

lemma collect_Cons_Inr:
  "collect (r # rs) = Inr ys \<longleftrightarrow> (\<exists>x xs. r = Inr x \<and> collect rs = Inr xs \<and> ys = x # xs)"
  by (cases r; cases "collect rs") auto

lemma collect_Inr: "collect rs = Inr xs \<longleftrightarrow> rs = map Inr xs"
proof (induction rs arbitrary: xs)
  case Nil
  show ?case by auto
next
  case (Cons r rs)
  show ?case
  proof
    assume "collect (r # rs) = Inr xs"
    then obtain x ys where a: "r = Inr x" "collect rs = Inr ys" "xs = x # ys"
      unfolding collect_Cons_Inr by blast
    from a(2) have "rs = map Inr ys" using Cons.IH[of ys] by blast
    with a show "r # rs = map Inr xs" by simp
  next
    assume b: "r # rs = map Inr xs"
    then obtain x ys where c: "xs = x # ys" "r = Inr x" "rs = map Inr ys"
      by (cases xs) auto
    from c(3) have "collect rs = Inr ys" using Cons.IH[of ys] by blast
    with c show "collect (r # rs) = Inr xs" unfolding collect_Cons_Inr by blast
  qed
qed

lemma collect_Inl:
  "Inl es \<in> set rs \<Longrightarrow> \<exists>es'. collect rs = Inl es' \<and> set es \<subseteq> set es'"
proof (induction rs)
  case Nil
  then show ?case by simp
next
  case (Cons r rs)
  show ?case
  proof (cases "r = Inl es")
    case True
    then show ?thesis by (auto simp: errors_of_def split: sum.splits)
  next
    case False
    with Cons.prems have "Inl es \<in> set rs" by simp
    from Cons.IH[OF this] obtain es' where "collect rs = Inl es'" "set es \<subseteq> set es'" by blast
    then show ?thesis by (cases r) (auto simp: errors_of_def)
  qed
qed

lemma validate_WebSearchItem_Inr:
  "validate_WebSearchItem loc v = Inr item \<longleftrightarrow> well_formed_item v item"
proof (cases v)
  case (JDict d)
  show ?thesis
    unfolding JDict validate_WebSearchItem_def well_formed_item_def required_def
    by (cases item)
       (auto simp: validate_str_Inr split: option.splits sum.splits)
qed (simp_all add: validate_WebSearchItem_def well_formed_item_def)

lemma validate_WebSearchItem_missing:
  assumes "map_of d (ascii ''reason'') = None \<or> map_of d (ascii ''query'') = None"
  shows "\<exists>errs k. validate_WebSearchItem loc (JDict d) = Inl errs \<and> (loc @ [Key k], Missing) \<in> set errs"
  using assms
  by (auto simp: validate_WebSearchItem_def required_def errors_of_def split: option.splits sum.splits)

lemma validate_list_Inr:
  "validate_list val loc v = Inr xs \<longleftrightarrow>
     (\<exists>vs. v = JList vs \<and> length xs = length vs \<and>
        (\<forall>i < length vs. val (loc @ [Index i]) (vs ! i) = Inr (xs ! i)))"
proof (cases v)
  case (JList vs)
  have "map (\<lambda>(i, v). val (loc @ [Index i]) v) (enumerate 0 vs) = map Inr xs \<longleftrightarrow>
        length xs = length vs \<and> (\<forall>i < length vs. val (loc @ [Index i]) (vs ! i) = Inr (xs ! i))"
    by (auto simp: list_eq_iff_nth_eq nth_enumerate_eq)
  then show ?thesis by (simp add: JList collect_Inr)
qed simp_all

lemma WebSearchPlan_init_Inr:
  "WebSearchPlan_init data = Inr plan \<longleftrightarrow>
     (\<exists>vs. map_of data (ascii ''searches'') = Some (JList vs) \<and>
           list_all2 well_formed_item vs (searches plan))"
proof -
  have "WebSearchPlan_init data = Inr plan \<longleftrightarrow>
        (\<exists>v. map_of data (ascii ''searches'') = Some v \<and>
             validate_list validate_WebSearchItem [Key (ascii ''searches'')] v = Inr (searches plan))"
    by (cases plan) (auto simp: WebSearchPlan_init_def required_def split: option.splits sum.splits)
  also have "\<dots> \<longleftrightarrow> (\<exists>vs. map_of data (ascii ''searches'') = Some (JList vs) \<and>
           list_all2 well_formed_item vs (searches plan))"
    by (auto simp: validate_list_Inr validate_WebSearchItem_Inr list_all2_conv_all_nth)
  finally show ?thesis .
qed

lemma WebSearchPlan_init_missing:
  assumes "map_of data (ascii ''searches'') = Some (JList vs)" "i < length vs" "vs ! i = JDict d"
    and "map_of d (ascii ''reason'') = None \<or> map_of d (ascii ''query'') = None"
  shows "\<exists>errs k. WebSearchPlan_init data = Inl (ValidationError (ascii ''WebSearchPlan'') errs) \<and>
           ([Key (ascii ''searches''), Index i, Key k], Missing) \<in> set errs"
proof -
  let ?loc = "[Key (ascii ''searches'')]"
  from validate_WebSearchItem_missing[OF assms(4), of "?loc @ [Index i]"]
  obtain es k where e: "validate_WebSearchItem (?loc @ [Index i]) (JDict d) = Inl es"
    "((?loc @ [Index i]) @ [Key k], Missing) \<in> set es" by blast
  let ?rs = "map (\<lambda>(i, v). validate_WebSearchItem (?loc @ [Index i]) v) (enumerate 0 vs)"
  have "?rs ! i = Inl es" using assms(2,3) e(1) by (simp add: nth_enumerate_eq)
  moreover have "i < length ?rs" using assms(2) by simp
  ultimately have "Inl es \<in> set ?rs" by (metis nth_mem)
  from collect_Inl[OF this] obtain es' where c: "collect ?rs = Inl es'" "set es \<subseteq> set es'" by blast
  then have "WebSearchPlan_init data = Inl (ValidationError (ascii ''WebSearchPlan'') es')"
    using assms(1) by (simp add: WebSearchPlan_init_def required_def)
  with c e(2) show ?thesis by auto
qed

lemma plan_searches_validated:
  "plan_searches env q w = (Inr handed, w') \<Longrightarrow>
   \<exists>answer parsed w1.
     generate_content env (planner_request q) (progress env 0.1 PLANNING_DESC w) = (Inr answer, w1) \<and>
     extract_json (json_loads env) answer = Inr parsed \<and>
     WebSearchPlan_init parsed = Inr handed"
  by (auto simp: plan_searches_def Let_def PLANNING_DESC_def split: prod.splits sum.splits)

text \<open>
  C3, as the specification states it, fails: a parsed mapping whose list holds a single
  item with an empty reason and an empty query is accepted, so a plan that is not of
  \<open>NUM_SEARCHES\<close> items and has empty strings reaches the later stages.
\<close>

theorem plan_validation_counterexample:
  "WebSearchPlan_init demo_short_plan_data = Inr \<lparr>searches = [\<lparr>reason = [], query = []\<rparr>]\<rparr> \<and>
   \<not> spec_plan_invariant \<lparr>searches = [\<lparr>reason = [], query = []\<rparr>]\<rparr>"
proof
  have "list_all2 well_formed_item [JDict [(ascii ''reason'', JStr []), (ascii ''query'', JStr [])]]
          (searches \<lparr>searches = [\<lparr>reason = [], query = []\<rparr>]\<rparr>)"
    by (simp add: well_formed_item_def ascii_def)
  then show "WebSearchPlan_init demo_short_plan_data = Inr \<lparr>searches = [\<lparr>reason = [], query = []\<rparr>]\<rparr>"
    unfolding WebSearchPlan_init_Inr by (simp add: demo_short_plan_data_def)
  show "\<not> spec_plan_invariant \<lparr>searches = [\<lparr>reason = [], query = []\<rparr>]\<rparr>"
    by (simp add: spec_plan_invariant_def NUM_SEARCHES_def)
qed

text \<open>
  C3, amended. Validation as a search plan accepts exactly the mappings whose key
  "searches" holds a list, of any length, of dicts that each hold a string under "reason"
  and a string under "query", empty or not; other keys are ignored. A mapping in which an
  item is a dict without one of the two keys is rejected with a validation error that
  names a missing field of that item. Every plan that the Planner Stage returns is the
  result of this validation on the mapping extracted from the answer that the model gave
  to this call.
\<close>

theorem plan_validation:
  "(WebSearchPlan_init data = Inr plan \<longleftrightarrow>
      (\<exists>vs. map_of data (ascii ''searches'') = Some (JList vs) \<and>
            list_all2 well_formed_item vs (searches plan))) \<and>
   (map_of data (ascii ''searches'') = Some (JList vs) \<and> i < length vs \<and> vs ! i = JDict d \<and>
    (map_of d (ascii ''reason'') = None \<or> map_of d (ascii ''query'') = None) \<longrightarrow>
      (\<exists>errs k. WebSearchPlan_init data = Inl (ValidationError (ascii ''WebSearchPlan'') errs) \<and>
                ([Key (ascii ''searches''), Index i, Key k], Missing) \<in> set errs)) \<and>
   (plan_searches env q w = (Inr handed, w') \<longrightarrow>
      (\<exists>answer parsed w1.
         generate_content env (planner_request q) (progress env 0.1 PLANNING_DESC w) = (Inr answer, w1) \<and>
         extract_json (json_loads env) answer = Inr parsed \<and>
         WebSearchPlan_init parsed = Inr handed))"
proof (intro conjI impI)
  show "WebSearchPlan_init data = Inr plan \<longleftrightarrow>
      (\<exists>vs. map_of data (ascii ''searches'') = Some (JList vs) \<and>
            list_all2 well_formed_item vs (searches plan))"
    by (rule WebSearchPlan_init_Inr)
next
  assume "map_of data (ascii ''searches'') = Some (JList vs) \<and> i < length vs \<and> vs ! i = JDict d \<and>
    (map_of d (ascii ''reason'') = None \<or> map_of d (ascii ''query'') = None)"
  then show "\<exists>errs k. WebSearchPlan_init data = Inl (ValidationError (ascii ''WebSearchPlan'') errs) \<and>
                ([Key (ascii ''searches''), Index i, Key k], Missing) \<in> set errs"
    using WebSearchPlan_init_missing by blast
next
  assume "plan_searches env q w = (Inr handed, w')"
  then show "\<exists>answer parsed w1.
         generate_content env (planner_request q) (progress env 0.1 PLANNING_DESC w) = (Inr answer, w1) \<and>
         extract_json (json_loads env) answer = Inr parsed \<and>
         WebSearchPlan_init parsed = Inr handed"
    by (rule plan_searches_validated)
qed


lemma run_rejected:
  "rejected q \<Longrightarrow> run_research_pipeline env q w = ((INVALID_QUERY_MSG, [], []), w)"
  by (simp add: run_research_pipeline_def rejected_def)

lemma error_not_invalid: "ERROR_PREFIX @ m \<noteq> INVALID_QUERY_MSG"
  by (simp add: ERROR_PREFIX_def INVALID_QUERY_MSG_def ascii_def)

lemma write_report_nonempty:
  "write_report env q rs w = (Inr report, w') \<Longrightarrow> markdown_report report \<noteq> []"
  by (auto simp: write_report_def Let_def NEWLINE_def split: prod.splits sum.splits)

lemma run_not_rejected:
  assumes "\<not> rejected q"
  shows "fst (run_research_pipeline env q w) \<noteq> (INVALID_QUERY_MSG, [], [])"
proof -
  let ?w0 = "progress env 0 ([287, 376, 353, 8364] @ ascii '' Starting research pipeline...'') w"
  obtain r1 w1 where p: "plan_searches env q ?w0 = (r1, w1)" by fastforce
  show ?thesis
  proof (cases r1)
    case (Inl e)
    with p assms show ?thesis
      by (simp add: run_research_pipeline_def rejected_def Let_def error_not_invalid)
  next
    case plan: (Inr search_plan)
    obtain r2 w2 where s: "perform_searches env search_plan w1 = (r2, w2)" by fastforce
    show ?thesis
    proof (cases r2)
      case (Inl e)
      with p plan s assms show ?thesis
        by (simp add: run_research_pipeline_def rejected_def Let_def error_not_invalid)
    next
      case res: (Inr search_results)
      obtain r3 w3 where wr: "write_report env q search_results w2 = (r3, w3)" by fastforce
      show ?thesis
      proof (cases r3)
        case (Inl e)
        with p plan s res wr assms show ?thesis
          by (simp add: run_research_pipeline_def rejected_def Let_def error_not_invalid)
      next
        case (Inr report)
        with wr have "write_report env q search_results w2 = (Inr report, w3)" by simp
        then have "markdown_report report \<noteq> []" by (rule write_report_nonempty)
        with p plan s res wr Inr assms show ?thesis
          by (simp add: run_research_pipeline_def rejected_def Let_def)
      qed
    qed
  qed
qed

lemma filter_dropWhile_isspace:
  "filter (\<lambda>c. \<not> isspace c) (dropWhile isspace s) = filter (\<lambda>c. \<not> isspace c) s"
  by (induction s) auto

lemma filter_strip: "filter (\<lambda>c. \<not> isspace c) (strip s) = filter (\<lambda>c. \<not> isspace c) s"
proof -
  have "filter (\<lambda>c. \<not> isspace c) (strip s) =
        rev (filter (\<lambda>c. \<not> isspace c) (dropWhile isspace (rev (dropWhile isspace s))))"
    by (simp add: strip_def rev_filter)
  also have "\<dots> = rev (filter (\<lambda>c. \<not> isspace c) (rev (dropWhile isspace s)))"
    by (simp only: filter_dropWhile_isspace)
  also have "\<dots> = filter (\<lambda>c. \<not> isspace c) (dropWhile isspace s)"
    by (simp add: rev_filter)
  finally show ?thesis by (simp add: filter_dropWhile_isspace)
qed

lemma rejected_spec_rejected: "rejected q \<Longrightarrow> spec_rejected q"
proof -
  assume r: "rejected q"
  have "length (filter (\<lambda>c. \<not> isspace c) q) = length (filter (\<lambda>c. \<not> isspace c) (strip q))"
    by (simp add: filter_strip)
  also have "\<dots> \<le> length (strip q)" by (rule length_filter_le)
  finally show ?thesis using r by (auto simp: rejected_def spec_rejected_def)
qed

lemma plan_searches_logged_prefix:
  "\<exists>rest. fst (snd (plan_searches (logged env) q (evs, w))) =
     evs @ [ProgressEvent 0.1 PLANNING_DESC, GenerateCall (planner_request q)] @ rest"
  by (auto simp: plan_searches_def logged_def Let_def PLANNING_DESC_def
      split: prod.splits sum.splits)

lemma search_loop_logged_prefix:
  "\<exists>rest. fst (snd (search_loop (logged env) n i items acc (evs, w))) = evs @ rest"
proof (induction items arbitrary: i acc evs w)
  case Nil
  then show ?case by simp
next
  case (Cons item items)
  let ?d = "[287, 376, 8221] @ ascii '' Searching ('' @ str_of_nat i @ ascii ''/'' @
                  str_of_nat n @ ascii ''): '' @ take 50 (query item) @ ascii ''...''"
  let ?f = "0.2 + (0.5 * of_nat i / of_nat n) :: rat"
  let ?w1 = "progress env ?f ?d w"
  let ?evs2 = "evs @ [ProgressEvent ?f ?d] @ [SearchCall (search_request (query item))]"
  have p: "progress (logged env) ?f ?d (evs, w) = (evs @ [ProgressEvent ?f ?d], ?w1)"
    by (simp add: logged_def)
  have sw: "search_web (logged env) (query item) (reason item) (evs @ [ProgressEvent ?f ?d], ?w1) =
     (fst (search_web env (query item) (reason item) ?w1),
      (?evs2, snd (search_web env (query item) (reason item) ?w1)))"
    using search_web_logged[of env "query item" "reason item" "evs @ [ProgressEvent ?f ?d]" ?w1]
    by simp
  show ?case
  proof (cases "fst (search_web env (query item) (reason item) ?w1)")
    case (Inl e)
    then have "fst (snd (search_loop (logged env) n i (item # items) acc (evs, w))) = ?evs2"
      using p sw by (simp add: Let_def)
    then show ?thesis by simp
  next
    case (Inr result)
    let ?w2 = "snd (search_web env (query item) (reason item) ?w1)"
    have "search_loop (logged env) n i (item # items) acc (evs, w) =
          search_loop (logged env) n (Suc i) items (acc @ [result]) (?evs2, ?w2)"
      using p sw Inr by (simp add: Let_def)
    moreover from Cons.IH[of "Suc i" "acc @ [result]" ?evs2 ?w2]
    obtain rest where "fst (snd (search_loop (logged env) n (Suc i) items (acc @ [result]) (?evs2, ?w2))) =
        ?evs2 @ rest" by blast
    ultimately show ?thesis by simp
  qed
qed

lemma perform_searches_logged_prefix:
  "\<exists>rest. fst (snd (perform_searches (logged env) plan (evs, w))) = evs @ rest"
proof -
  let ?n = "length (searches plan)"
  obtain r evs' w' where l: "search_loop (logged env) ?n 1 (searches plan) [] (evs, w) = (r, (evs', w'))"
    by (metis prod.exhaust)
  from search_loop_logged_prefix[of env ?n 1 "searches plan" "[]" evs w] l
  obtain rest where "evs' = evs @ rest" by auto
  with l show ?thesis
    by (cases r) (auto simp: perform_searches_def logged_def)
qed

lemma write_report_logged_prefix:
  "\<exists>rest. fst (snd (write_report (logged env) q rs (evs, w))) = evs @ rest"
  by (auto simp: write_report_def logged_def Let_def split: prod.splits sum.splits)

lemma progress_logged:
  "progress (logged env) f d (evs, w) = (evs @ [ProgressEvent f d], progress env f d w)"
  by (simp add: logged_def)

lemma run_logged_prefix:
  assumes "\<not> rejected q"
  shows "\<exists>rest. fst (snd (run_research_pipeline (logged env) q ([], w))) =
     [ProgressEvent 0 STARTING_DESC, ProgressEvent 0.1 PLANNING_DESC,
      GenerateCall (planner_request q)] @ rest"
proof -
  let ?w0 = "progress env 0 STARTING_DESC w"
  let ?s0 = "([ProgressEvent 0 STARTING_DESC], ?w0)"
  let ?pre = "[ProgressEvent 0 STARTING_DESC, ProgressEvent 0.1 PLANNING_DESC,
      GenerateCall (planner_request q)]"
  obtain r1 e1 w1 where p: "plan_searches (logged env) q ?s0 = (r1, (e1, w1))"
    by (metis prod.exhaust)
  from plan_searches_logged_prefix[of env q "[ProgressEvent 0 STARTING_DESC]" ?w0] p
  obtain rest1 where e1: "e1 = ?pre @ rest1" by auto
  have run: "run_research_pipeline (logged env) q ([], w) =
        (case plan_searches (logged env) q ?s0 of
              (Inl e, w1) \<Rightarrow> ((ERROR_PREFIX @ exn_str (logged env) e, [], []), w1)
            | (Inr search_plan, w1) \<Rightarrow>
                (case perform_searches (logged env) search_plan w1 of
                   (Inl e, w2) \<Rightarrow> ((ERROR_PREFIX @ exn_str (logged env) e, [], []), w2)
                 | (Inr search_results, w2) \<Rightarrow>
                     (case write_report (logged env) q search_results w2 of
                        (Inl e, w3) \<Rightarrow> ((ERROR_PREFIX @ exn_str (logged env) e, [], []), w3)
                      | (Inr report, w3) \<Rightarrow>
                          ((short_summary report, markdown_report report,
                            follow_up_text (follow_up_questions report)), w3))))"
    using assms
    by (simp add: run_research_pipeline_def rejected_def Let_def progress_logged STARTING_DESC_def)
  show ?thesis
  proof (cases r1)
    case (Inl e)
    with p e1 show ?thesis unfolding run by simp
  next
    case plan: (Inr search_plan)
    obtain r2 e2 w2 where s: "perform_searches (logged env) search_plan (e1, w1) = (r2, (e2, w2))"
      by (metis prod.exhaust)
    from perform_searches_logged_prefix[of env search_plan e1 w1] s
    obtain rest2 where e2: "e2 = e1 @ rest2" by auto
    show ?thesis
    proof (cases r2)
      case (Inl e)
      with p plan s e1 e2 show ?thesis unfolding run by simp
    next
      case res: (Inr search_results)
      obtain r3 e3 w3 where wr: "write_report (logged env) q search_results (e2, w2) = (r3, (e3, w3))"
        by (metis prod.exhaust)
      from write_report_logged_prefix[of env q search_results e2 w2] wr
      obtain rest3 where e3: "e3 = e2 @ rest3" by auto
      from p plan s res wr e1 e2 e3 show ?thesis unfolding run by (cases r3) simp_all
    qed
  qed
qed

text \<open>
  C4, as the specification states it, fails: the query "a b" has two characters that are
  not whitespace, fewer than three, yet it passes validation, because the source counts
  the characters of the stripped query, the inner blank among them. The Planner is
  invoked, and the result is not the validation message.
\<close>

theorem pipeline_validation_counterexample:
  "spec_rejected (ascii ''a b'') \<and>
   length (strip (ascii ''a b'')) = 3 \<and>
   run_research_pipeline demo_env (ascii ''a b'') () = ((ERROR_PREFIX @ ascii ''offline'', [], []), ()) \<and>
   ERROR_PREFIX @ ascii ''offline'' \<noteq> INVALID_QUERY_MSG \<and>
   filter is_generate (fst (snd (run_research_pipeline (logged demo_env) (ascii ''a b'') ([], ())))) =
     [GenerateCall (planner_request (ascii ''a b''))]"
proof -
  have s: "strip (ascii ''a b'') = ascii ''a b''"
    by (simp add: strip_def isspace_def ascii_def)
  have 1: "spec_rejected (ascii ''a b'')"
    by (simp add: spec_rejected_def isspace_def ascii_def)
  have 2: "length (strip (ascii ''a b'')) = 3" unfolding s by (simp add: ascii_def)
  have g: "generate_content demo_env req v = (Inl (Raised (ascii ''offline'')), v)" for req v
    by (simp add: demo_env_def stateless_def demo_llm_def)
  have 3: "run_research_pipeline demo_env (ascii ''a b'') () =
           ((ERROR_PREFIX @ ascii ''offline'', [], []), ())"
    using 2 by (simp add: run_research_pipeline_def plan_searches_def g Let_def) (simp add: ascii_def)
  have gl: "generate_content (logged demo_env) req (evs, v) =
            (Inl (Raised (ascii ''offline'')), (evs @ [GenerateCall req], v))" for req evs v
    by (simp add: logged_def g)
  have 4: "filter is_generate (fst (snd (run_research_pipeline (logged demo_env) (ascii ''a b'') ([], ())))) =
     [GenerateCall (planner_request (ascii ''a b''))]"
    using 2
    by (simp add: run_research_pipeline_def plan_searches_def gl progress_logged Let_def is_generate_def)
       (simp add: ascii_def)
  from 1 2 3 4 error_not_invalid show ?thesis by blast
qed

text \<open>
  C4, amended. The pipeline rejects a query, with the fixed validation message and without
  any call of the model, the provider or the progress sink, if and only if the query is
  empty or has fewer than 3 characters once its leading and trailing whitespace is
  removed; whitespace inside the query counts. A rejected query has fewer than three
  characters that are not whitespace, but not the other way round. Every other query goes
  on to Planning: the run reports its start, and the Planner reports and calls the model.
\<close>

theorem pipeline_validation:
  "(q = [] \<or> length (strip q) < 3 \<longrightarrow>
      run_research_pipeline env q w = ((INVALID_QUERY_MSG, [], []), w) \<and>
      fst (snd (run_research_pipeline (logged env) q ([], w))) = [] \<and>
      spec_rejected q) \<and>
   (\<not> (q = [] \<or> length (strip q) < 3) \<longrightarrow>
      fst (run_research_pipeline env q w) \<noteq> (INVALID_QUERY_MSG, [], []) \<and>
      (\<exists>rest. fst (snd (run_research_pipeline (logged env) q ([], w))) =
         [ProgressEvent 0 STARTING_DESC, ProgressEvent 0.1 PLANNING_DESC,
          GenerateCall (planner_request q)] @ rest))"
proof (intro conjI impI)
  assume "q = [] \<or> length (strip q) < 3"
  then have r: "rejected q" by (simp add: rejected_def)
  show "run_research_pipeline env q w = ((INVALID_QUERY_MSG, [], []), w)"
    using r by (rule run_rejected)
  show "fst (snd (run_research_pipeline (logged env) q ([], w))) = []"
    using run_rejected[OF r, of "logged env" "([], w)"] by simp
  show "spec_rejected q" using r by (rule rejected_spec_rejected)
next
  assume "\<not> (q = [] \<or> length (strip q) < 3)"
  then have r: "\<not> rejected q" by (simp add: rejected_def)
  show "fst (run_research_pipeline env q w) \<noteq> (INVALID_QUERY_MSG, [], [])"
    using r by (rule run_not_rejected)
  show "\<exists>rest. fst (snd (run_research_pipeline (logged env) q ([], w))) =
         [ProgressEvent 0 STARTING_DESC, ProgressEvent 0.1 PLANNING_DESC,
          GenerateCall (planner_request q)] @ rest"
    using r by (rule run_logged_prefix)
qed

theorem pipeline_validation_witness:
  "length (strip (ascii ''  ab '')) = 2 \<and>
   run_research_pipeline demo_env (ascii ''  ab '') () = ((INVALID_QUERY_MSG, [], []), ()) \<and>
   fst (snd (run_research_pipeline (logged demo_env) (ascii ''  ab '') ([], ()))) = [] \<and>
   length (strip (ascii ''a b'')) = 3 \<and>
   fst (run_research_pipeline demo_env (ascii ''a b'') ()) \<noteq> (INVALID_QUERY_MSG, [], []) \<and>
   (\<exists>rest. fst (snd (run_research_pipeline (logged demo_env) (ascii ''a b'') ([], ()))) =
         [ProgressEvent 0 STARTING_DESC, ProgressEvent 0.1 PLANNING_DESC,
          GenerateCall (planner_request (ascii ''a b''))] @ rest)"
proof -
  have a: "length (strip (ascii ''  ab '')) = 2"
    by (simp add: strip_def isspace_def ascii_def)
  have b: "length (strip (ascii ''a b'')) = 3"
    by (simp add: strip_def isspace_def ascii_def)
  have c: "ascii ''a b'' \<noteq> []" by (simp add: ascii_def)
  from pipeline_validation[of "ascii ''  ab ''" demo_env "()", THEN conjunct1] a
  have r1: "run_research_pipeline demo_env (ascii ''  ab '') () = ((INVALID_QUERY_MSG, [], []), ()) \<and>
   fst (snd (run_research_pipeline (logged demo_env) (ascii ''  ab '') ([], ()))) = []"
    by simp
  from pipeline_validation[of "ascii ''a b''" demo_env "()", THEN conjunct2] b c
  have r2: "fst (run_research_pipeline demo_env (ascii ''a b'') ()) \<noteq> (INVALID_QUERY_MSG, [], []) \<and>
   (\<exists>rest. fst (snd (run_research_pipeline (logged demo_env) (ascii ''a b'') ([], ()))) =
         [ProgressEvent 0 STARTING_DESC, ProgressEvent 0.1 PLANNING_DESC,
          GenerateCall (planner_request (ascii ''a b''))] @ rest)"
    by simp
  from a b r1 r2 show ?thesis by blast
qed


lemma demo_env2_plan:
  "plan_searches demo_env2 (ascii ''pets'') v = (Inr demo_plan_failing, ())"
proof -
  have g: "generate_content demo_env2 req u = (Inr (ascii ''Here is the plan: {...}''), u)" for req u
    by (simp add: demo_env2_def stateless_def)
  have x: "extract_json (json_loads demo_env2) (ascii ''Here is the plan: {...}'') =
           Inr demo_failing_plan_data"
    by (simp add: extract_json_def demo_env2_def stateless_def ascii_def LBRACE_def RBRACE_def)
  have w: "list_all2 well_formed_item
     [JDict [(ascii ''reason'', JStr (ascii ''pets'')), (ascii ''query'', JStr (ascii ''cats''))],
      JDict [(ascii ''reason'', JStr (ascii ''outage'')), (ascii ''query'', JStr (ascii ''down''))],
      JDict [(ascii ''reason'', JStr (ascii ''more pets'')), (ascii ''query'', JStr (ascii ''dogs''))]]
     (searches demo_plan_failing)"
    by (simp add: well_formed_item_def demo_plan_failing_def ascii_def)
  have i: "WebSearchPlan_init demo_failing_plan_data = Inr demo_plan_failing"
    unfolding WebSearchPlan_init_Inr using w by (simp add: demo_failing_plan_data_def)
  show ?thesis
    by (simp add: plan_searches_def g x i Let_def)
qed



theorem plan_validation_witness:
  "WebSearchPlan_init demo_plan_data =
     Inr \<lparr>searches = [\<lparr>reason = ascii ''pets'', query = ascii ''cats''\<rparr>,
                      \<lparr>reason = ascii ''control'', query = ascii ''nothing''\<rparr>]\<rparr> \<and>
   plan_searches demo_env2 (ascii ''pets'') () = (Inr demo_plan_failing, ()) \<and>
   (\<exists>answer parsed w1.
      generate_content demo_env2 (planner_request (ascii ''pets''))
        (progress demo_env2 0.1 PLANNING_DESC ()) = (Inr answer, w1) \<and>
      extract_json (json_loads demo_env2) answer = Inr parsed \<and>
      WebSearchPlan_init parsed = Inr demo_plan_failing) \<and>
   (\<exists>errs k. WebSearchPlan_init demo_bad_plan_data = Inl (ValidationError (ascii ''WebSearchPlan'') errs) \<and>
             ([Key (ascii ''searches''), Index 1, Key k], Missing) \<in> set errs) \<and>
   WebSearchPlan_init demo_bad_plan_data =
     Inl (ValidationError (ascii ''WebSearchPlan'')
            [([Key (ascii ''searches''), Index 1, Key (ascii ''query'')], Missing)])"
proof -
  let ?good = "[JDict [(ascii ''reason'', JStr (ascii ''pets'')), (ascii ''query'', JStr (ascii ''cats''))],
              JDict [(ascii ''query'', JStr (ascii ''nothing'')), (ascii ''reason'', JStr (ascii ''control'')),
                     (ascii ''rank'', JInt 2)]]"
  let ?plan = "\<lparr>searches = [\<lparr>reason = ascii ''pets'', query = ascii ''cats''\<rparr>,
                      \<lparr>reason = ascii ''control'', query = ascii ''nothing''\<rparr>]\<rparr>"
  let ?bad = "[JDict [(ascii ''reason'', JStr (ascii ''r1'')), (ascii ''query'', JStr (ascii ''q1''))],
              JDict [(ascii ''reason'', JStr (ascii ''r2''))]]"
  have g: "map_of demo_plan_data (ascii ''searches'') = Some (JList ?good)"
    by (simp add: demo_plan_data_def ascii_def)
  have w: "list_all2 well_formed_item ?good (searches ?plan)"
    by (simp add: well_formed_item_def ascii_def)
  from plan_validation[of demo_plan_data ?plan, THEN conjunct1] g w
  have r1: "WebSearchPlan_init demo_plan_data = Inr ?plan" by blast
  have b: "map_of demo_bad_plan_data (ascii ''searches'') = Some (JList ?bad) \<and> 1 < length ?bad \<and>
           ?bad ! 1 = JDict [(ascii ''reason'', JStr (ascii ''r2''))] \<and>
           (map_of [(ascii ''reason'', JStr (ascii ''r2''))] (ascii ''reason'') = None \<or>
            map_of [(ascii ''reason'', JStr (ascii ''r2''))] (ascii ''query'') = None)"
    by (simp add: demo_bad_plan_data_def ascii_def)
  from plan_validation[of demo_bad_plan_data _ ?bad 1 "[(ascii ''reason'', JStr (ascii ''r2''))]",
      THEN conjunct2, THEN conjunct1] b
  have r2: "\<exists>errs k. WebSearchPlan_init demo_bad_plan_data = Inl (ValidationError (ascii ''WebSearchPlan'') errs) \<and>
             ([Key (ascii ''searches''), Index 1, Key k], Missing) \<in> set errs"
    by blast
  have r3: "WebSearchPlan_init demo_bad_plan_data =
     Inl (ValidationError (ascii ''WebSearchPlan'')
            [([Key (ascii ''searches''), Index 1, Key (ascii ''query'')], Missing)])"
    by (simp add: demo_bad_plan_data_def WebSearchPlan_init_def required_def
        validate_WebSearchItem_def errors_of_def enumerate_eq_zip upt_rec[of 0] upt_rec[of 1] ascii_def)
  have p: "plan_searches demo_env2 (ascii ''pets'') () = (Inr demo_plan_failing, ())"
    by (rule demo_env2_plan)
  from plan_validation[where env=demo_env2 and q="ascii ''pets''" and w="()"
      and handed=demo_plan_failing and w'="()", THEN conjunct2, THEN conjunct2] p
  have r4: "\<exists>answer parsed w1.
      generate_content demo_env2 (planner_request (ascii ''pets''))
        (progress demo_env2 0.1 PLANNING_DESC ()) = (Inr answer, w1) \<and>
      extract_json (json_loads demo_env2) answer = Inr parsed \<and>
      WebSearchPlan_init parsed = Inr demo_plan_failing"
    by (rule mp)
  from r1 r2 r3 r4 p show ?thesis by blast
qed


end
